theory Spec2Isabelle
  imports Complex_Main "HOL-Library.Log_Nat"
begin

section \<open>Numbers\<close>

text \<open>
  A JavaScript number is an IEEE 754 binary64 value, and every arithmetic operation returns
  the exact result rounded to the nearest such value, a tie going to the even significand.
  The source is embedded twice. In the exact embedding the arithmetic is that of the real
  numbers; it is used for the inequalities, which the code satisfies up to rounding. In the
  rounded embedding (the definitions whose names end in \<open>D\<close>) every arithmetic result
  goes through \<open>fl\<close>; it is used where a property is an exact equality or depends on
  which branch a comparison takes. \<open>fl\<close> rounds to 53 significant bits, with the fixed
  spacing \<open>2^-1074\<close> below \<open>2^-1022\<close>; magnitudes from \<open>2^1024\<close> on, where a
  binary64 value is infinite, are not modelled.
\<close>

text \<open>The exponent \<open>e\<close> with \<open>2^e \<le> x < 2^(e+1)\<close>, for positive \<open>x\<close>.\<close>

definition exponent :: "real \<Rightarrow> int" where
  "exponent x =
     (if 1 \<le> x then bitlen \<lfloor>x\<rfloor> - 1
      else (let k = bitlen \<lfloor>1 / x\<rfloor> - 1 in if x * 2 ^ nat k = 1 then - k else - k - 1))"

definition roundTiesEven :: "real \<Rightarrow> int" where
  "roundTiesEven y =
     (let f = \<lfloor>y\<rfloor>
      in if y - of_int f < 1/2 then f
         else if 1/2 < y - of_int f then f + 1
         else if even f then f else f + 1)"

definition fl :: "real \<Rightarrow> real" where
  "fl x =
     (if x = 0 then 0
      else (let e = max (exponent \<bar>x\<bar>) (- 1022); p = 52 - e
            in if 0 \<le> p then of_int (roundTiesEven (x * 2 ^ nat p)) / 2 ^ nat p
               else of_int (roundTiesEven (x / 2 ^ nat (- p))) * 2 ^ nat (- p)))"

text \<open>A real number that is a binary64 value, as every number of a request or a probe is.\<close>

definition isDouble :: "real \<Rightarrow> bool" where
  "isDouble x \<longleftrightarrow> fl x = x"

text \<open>\<open>ds.reduce((sum, d) => sum + d, 0)\<close>, and a variable that \<open>+=\<close> runs over.\<close>

definition dsum :: "real list \<Rightarrow> real" where
  "dsum ds = foldl (\<lambda>sum d. fl (sum + d)) 0 ds"

section \<open>Subtitle timing synthesizer (src/routes/audio.js)\<close>

text \<open>
  A JavaScript string is a sequence of UTF-16 code units; \<open>length\<close> counts them. The
  punctuation marks of the source are single code units (U+3002, U+FF01, U+FF1F, U+FF1B,
  U+FF1A, U+FF0C, U+3001 and the line feed), so a string is modelled as a list of code
  units. Seconds are JavaScript numbers: real numbers in the exact embedding, rounded by
  \<open>fl\<close> after every operation in the rounded one.
\<close>

type_synonym jsstring = "nat list"

text \<open>The class \<open>\s\<close> of a JavaScript regular expression.\<close>

definition isWhiteSpace :: "nat \<Rightarrow> bool" where
  "isWhiteSpace c \<longleftrightarrow>
     c \<in> set [9, 10, 11, 12, 13, 32, 160, 5760, 8232, 8233, 8239, 8287, 12288, 65279]
     \<or> (8192 \<le> c \<and> c \<le> 8202)"

text \<open>The character class of \<open>punctuationRegex\<close> in \<open>calculateSubtitleTimings\<close>.\<close>

definition punctuationRegex :: "nat \<Rightarrow> bool" where
  "punctuationRegex c \<longleftrightarrow>
     c \<in> set [12290, 65281, 65311, 65307, 65306, 65292, 12289, 10] \<or> isWhiteSpace c"

text \<open>\<open>seg.replace(punctuationRegex, '').length\<close>\<close>

definition charCount :: "jsstring \<Rightarrow> nat" where
  "charCount seg = length (filter (\<lambda>c. \<not> punctuationRegex c) seg)"

record subtitle =
  sub_text :: jsstring
  startTime :: real
  endTime :: real

text \<open>\<open>segments.reduce((sum, seg) => sum + charCount(seg), 0)\<close>\<close>

definition totalChars :: "jsstring list \<Rightarrow> nat" where
  "totalChars segments = foldl (\<lambda>sum seg. sum + charCount seg) 0 segments"

text \<open>The ideal duration of every segment (the \<open>idealDurations\<close> array).\<close>

definition idealDurations :: "jsstring list \<Rightarrow> real \<Rightarrow> real list" where
  "idealDurations segments totalDuration =
     (let timePerChar = totalDuration / real (totalChars segments)
      in map (\<lambda>segment. max (1/2) (min (totalDuration / 3) (real (charCount segment) * timePerChar)))
           segments)"

definition scaleFactor :: "real list \<Rightarrow> real \<Rightarrow> real" where
  "scaleFactor ideals totalDuration =
     (let idealTotal = foldl (\<lambda>sum dur. sum + dur) 0 ideals
      in if idealTotal > totalDuration then totalDuration / idealTotal else 1)"

text \<open>
  The assignment loop. It walks the segments with their ideal durations; the arguments are
  the loop's variables \<open>currentTime\<close> and \<open>remainingTime\<close>. The number
  \<open>segments.length - i - 1\<close> of the source is the number of segments after the current one,
  and \<open>i === segments.length - 1\<close> holds at the last element of the list.
\<close>

fun assignLoop :: "real \<Rightarrow> real \<Rightarrow> real \<Rightarrow> (jsstring \<times> real) list \<Rightarrow> subtitle list" where
  "assignLoop scale currentTime remainingTime [] = []"
| "assignLoop scale currentTime remainingTime [(segment, ideal)] =
     [\<lparr>sub_text = segment, startTime = currentTime, endTime = currentTime + remainingTime\<rparr>]"
| "assignLoop scale currentTime remainingTime ((segment, ideal) # rest) =
     (let segmentDuration = min (ideal * scale) (remainingTime - (1/2) * real (length rest));
          segmentDuration = max (3/10) segmentDuration
      in \<lparr>sub_text = segment, startTime = currentTime, endTime = currentTime + segmentDuration\<rparr>
           # assignLoop scale (currentTime + segmentDuration) (remainingTime - segmentDuration) rest)"

text \<open>\<open>subtitles[subtitles.length - 1].endTime = startTime + totalDuration\<close>\<close>

definition setLastEndTime :: "subtitle list \<Rightarrow> real \<Rightarrow> subtitle list" where
  "setLastEndTime subtitles t =
     (if length subtitles > 0
      then subtitles[length subtitles - 1 := (last subtitles)\<lparr>endTime := t\<rparr>]
      else subtitles)"

definition calculateSubtitleTimings :: "jsstring list \<Rightarrow> real \<Rightarrow> real \<Rightarrow> subtitle list" where
  "calculateSubtitleTimings segments totalDuration start =
     (if length segments = 0 then []
      else if totalChars segments = 0 then
        (let segmentDuration = totalDuration / real (length segments)
         in map (\<lambda>(index, seg).
                   \<lparr>sub_text = seg,
                    startTime = start + real index * segmentDuration,
                    endTime = start + (real index + 1) * segmentDuration\<rparr>)
              (enumerate 0 segments))
      else
        (let ideals = idealDurations segments totalDuration;
             scale = scaleFactor ideals totalDuration;
             subtitles = assignLoop scale start totalDuration (zip segments ideals)
         in setLastEndTime subtitles (start + totalDuration)))"

section \<open>Duration-budgeted video generation (POST /generate/video-9-16)\<close>

text \<open>
  The handler of \<open>/generate/video-9-16\<close> fills a target duration from three pools: the
  videos of \<open>videoUrls\<close>, then the images of \<open>imageUrls\<close>, then the videos of
  \<open>appendVideoUrls\<close>. Downloading, probing and encoding are done by collaborators outside
  the repository (axios, ffprobe, ffmpeg). Their outcome is part of the input of the model:
  every source carries whether its download resolves and what its probe returns
  (\<open>None\<close> when ffprobe rejects). The encoder is taken to succeed on every file it is
  given. A file written by the encoder is represented by the
  duration the handler asked for: a concatenation lasts the sum of its parts, a file cut
  with \<open>setDuration(t)\<close> lasts \<open>t\<close>, and \<open>getVideoDuration\<close> of such a file returns
  that duration.
\<close>

record video_source =
  v_url :: string
  v_download :: bool
  v_duration :: "real option"

record image_source =
  i_url :: string
  i_download :: bool
  i_dimensions :: "(nat \<times> nat) option"

record request =
  targetDuration :: real
  imageUrls :: "image_source list"
  videoUrls :: "video_source list"
  appendVideoUrls :: "video_source list"

text \<open>
  The responses that are not a success: the two \<open>invalid_request\<close> answers a well-typed
  body can get, \<open>no_video_generated\<close>, and \<open>generation_failed\<close> of the handler's
  \<open>catch\<close> block.
\<close>

datatype invalid_request = TargetDurationRequired | NoUrlsProvided

datatype error = InvalidRequest invalid_request | NoVideoGenerated | GenerationFailed

text \<open>
  The files of \<open>processedVideoFiles\<close>: the concatenation of the processed videos, a
  video made from an image (with the image's width and height), a processed append video.
\<close>

datatype media_file =
    ClipsVideo real
  | ScrollVideo nat nat real
  | StaticVideo nat nat real
  | AppendVideo real

fun fileDuration :: "media_file \<Rightarrow> real" where
  "fileDuration (ClipsVideo d) = d"
| "fileDuration (ScrollVideo w h d) = d"
| "fileDuration (StaticVideo w h d) = d"
| "fileDuration (AppendVideo d) = d"

text \<open>
  The successful answer. \<open>res_duration\<close> and \<open>res_targetDuration\<close> are the fields
  \<open>duration\<close> and \<open>targetDuration\<close> of the JSON response. Two values of the handler
  that the response does not carry are kept for the properties: \<open>res_files\<close>, the list
  \<open>processedVideoFiles\<close> that is concatenated into the output file, and
  \<open>actualDuration\<close>, the duration of the output file probed after the final cut.
\<close>

record response =
  res_files :: "media_file list"
  actualDuration :: real
  res_duration :: real
  res_targetDuration :: real

text \<open>\<open>normalizeUrl\<close> of utils/urlUtils; \<open>baseUrl\<close> is the environment's \<open>BASE_URL\<close>.\<close>

definition normalizeUrl :: "string \<Rightarrow> string \<Rightarrow> string" where
  "normalizeUrl baseUrl url =
     (if url = [] then url
      else if take 4 url = ''http'' then url
      else if baseUrl \<noteq> [] then
        (let cleanBaseUrl = (if last baseUrl = CHR ''/'' then butlast baseUrl else baseUrl);
             cleanUrl = (if hd url = CHR ''/'' then url else CHR ''/'' # url)
         in cleanBaseUrl @ cleanUrl)
      else url)"

text \<open>\<open>urls.map(url => normalizeUrl(url)).filter(url => url)\<close>: an empty URL is dropped.\<close>

definition normalizeVideos :: "string \<Rightarrow> video_source list \<Rightarrow> video_source list" where
  "normalizeVideos baseUrl urls =
     filter (\<lambda>s. v_url s \<noteq> []) (map (\<lambda>s. s\<lparr>v_url := normalizeUrl baseUrl (v_url s)\<rparr>) urls)"

definition normalizeImages :: "string \<Rightarrow> image_source list \<Rightarrow> image_source list" where
  "normalizeImages baseUrl urls =
     filter (\<lambda>s. i_url s \<noteq> []) (map (\<lambda>s. s\<lparr>i_url := normalizeUrl baseUrl (i_url s)\<rparr>) urls)"

subsection \<open>Step 1: the videos\<close>

text \<open>The download loop has no \<open>try\<close>: a download that fails throws out of the handler.\<close>

fun downloadVideos :: "video_source list \<Rightarrow> error + video_source list" where
  "downloadVideos [] = Inr []"
| "downloadVideos (v # vs) =
     (if v_download v
      then (case downloadVideos vs of Inl e \<Rightarrow> Inl e | Inr downloaded \<Rightarrow> Inr (v # downloaded))
      else Inl GenerationFailed)"

text \<open>
  The processing loop: probe, convert, add to \<open>totalVideoDuration\<close>, stop once the target
  is reached. It returns the durations of \<open>processedVideos\<close>.
\<close>

fun processVideos :: "real \<Rightarrow> real \<Rightarrow> video_source list \<Rightarrow> error + real list" where
  "processVideos target totalVideoDuration [] = Inr []"
| "processVideos target totalVideoDuration (v # vs) =
     (case v_duration v of
        None \<Rightarrow> Inl GenerationFailed
      | Some duration \<Rightarrow>
          if totalVideoDuration + duration \<ge> target then Inr [duration]
          else (case processVideos target (totalVideoDuration + duration) vs of
                  Inl e \<Rightarrow> Inl e
                | Inr processed \<Rightarrow> Inr (duration # processed)))"

definition step1 :: "real \<Rightarrow> video_source list \<Rightarrow> error + media_file list" where
  "step1 target videos =
     (if length videos > 0 then
        (case downloadVideos videos of
           Inl e \<Rightarrow> Inl e
         | Inr downloadedVideoFiles \<Rightarrow>
             (case processVideos target 0 downloadedVideoFiles of
                Inl e \<Rightarrow> Inl e
              | Inr processedVideos \<Rightarrow>
                  if length processedVideos > 0 then
                    (let concatenatedDuration = sum_list processedVideos
                     in if concatenatedDuration > target
                        then Inr [ClipsVideo target]
                        else Inr [ClipsVideo concatenatedDuration])
                  else Inr []))
      else Inr [])"

subsection \<open>Step 2: the images\<close>

text \<open>Both loops catch: a failed download or probe only skips the image.\<close>

definition downloadImages :: "image_source list \<Rightarrow> image_source list" where
  "downloadImages images = filter i_download images"

definition validImages :: "image_source list \<Rightarrow> (nat \<times> nat) list" where
  "validImages downloadedImageFiles =
     List.map_filter
       (\<lambda>s. case i_dimensions s of
               None \<Rightarrow> None
             | Some (width, height) \<Rightarrow>
                 if width \<ge> 500 \<and> height \<ge> 500 then Some (width, height) else None)
       downloadedImageFiles"

text \<open>
  \<open>scaleRatio = VIDEO_WIDTH / image.width\<close> and
  \<open>Math.round(image.height * scaleRatio)\<close>. The scaled height is an integer that decides
  the kind of the video, so the quotient and the product are rounded to binary64 in both
  embeddings; \<open>Math.round\<close> takes the nearest integer of that value, a tie going up.
\<close>

definition scaledHeight :: "nat \<Rightarrow> nat \<Rightarrow> int" where
  "scaledHeight width height = round (fl (real height * fl (1080 / real width)))"

text \<open>\<open>Math.max(3, scrollDistance / 100)\<close> with \<open>scrollDistance = scaledHeight - VIDEO_HEIGHT\<close>\<close>

definition scrollDuration :: "int \<Rightarrow> real" where
  "scrollDuration sh = max 3 (real_of_int (sh - 1920) / 100)"

fun imageLoop :: "real \<Rightarrow> real \<Rightarrow> (nat \<times> nat) list \<Rightarrow> media_file list" where
  "imageLoop remainingDuration accumulatedDuration [] = []"
| "imageLoop remainingDuration accumulatedDuration ((width, height) # images) =
     (if scaledHeight width height > 1920 then
        (let imageVideoDuration = scrollDuration (scaledHeight width height);
             imageVideoDuration =
               (if accumulatedDuration + imageVideoDuration > remainingDuration
                then max 1 (remainingDuration - accumulatedDuration)
                else imageVideoDuration)
         in ScrollVideo width height imageVideoDuration #
              (if accumulatedDuration + imageVideoDuration \<ge> remainingDuration then []
               else imageLoop remainingDuration (accumulatedDuration + imageVideoDuration) images))
      else
        (let imageVideoDuration = 5;
             imageVideoDuration =
               (if accumulatedDuration + imageVideoDuration > remainingDuration
                then max 1 (remainingDuration - accumulatedDuration)
                else imageVideoDuration)
         in StaticVideo width height imageVideoDuration #
              (if accumulatedDuration + imageVideoDuration \<ge> remainingDuration then []
               else imageLoop remainingDuration (accumulatedDuration + imageVideoDuration) images)))"

definition step2 :: "real \<Rightarrow> image_source list \<Rightarrow> media_file list \<Rightarrow> media_file list" where
  "step2 target images processedVideoFiles =
     (let currentDuration =
            (if length processedVideoFiles > 0 then fileDuration (hd processedVideoFiles) else 0);
          remainingDuration = target - currentDuration
      in if remainingDuration > 0 \<and> length images > 0
         then processedVideoFiles @ imageLoop remainingDuration 0 (validImages (downloadImages images))
         else processedVideoFiles)"

subsection \<open>Step 3: the append videos\<close>

text \<open>The download loop catches; the probe in the processing loop does not.\<close>

definition downloadAppendVideos :: "video_source list \<Rightarrow> video_source list" where
  "downloadAppendVideos videos = filter v_download videos"

fun processAppendVideos :: "real \<Rightarrow> real \<Rightarrow> video_source list \<Rightarrow> error + real list" where
  "processAppendVideos remainingAfterImages appendAccumulatedDuration [] = Inr []"
| "processAppendVideos remainingAfterImages appendAccumulatedDuration (v # vs) =
     (case v_duration v of
        None \<Rightarrow> Inl GenerationFailed
      | Some duration \<Rightarrow>
          if appendAccumulatedDuration + duration \<ge> remainingAfterImages then Inr [duration]
          else (case processAppendVideos remainingAfterImages (appendAccumulatedDuration + duration) vs of
                  Inl e \<Rightarrow> Inl e
                | Inr processed \<Rightarrow> Inr (duration # processed)))"

text \<open>
  The cut of the last append video. \<open>appendAccumulatedDuration\<close> is the sum of the durations
  pushed to \<open>appendProcessedVideos\<close>.
\<close>

definition trimLastAppend :: "real \<Rightarrow> real list \<Rightarrow> real list" where
  "trimLastAppend remainingAfterImages appendProcessedVideos =
     (let appendAccumulatedDuration = sum_list appendProcessedVideos
      in if length appendProcessedVideos > 0 \<and> appendAccumulatedDuration > remainingAfterImages then
           (let lastVideoDuration = last appendProcessedVideos;
                excessDuration = appendAccumulatedDuration - remainingAfterImages;
                trimmedDuration = lastVideoDuration - excessDuration
            in if trimmedDuration > 0
               then appendProcessedVideos[length appendProcessedVideos - 1 := trimmedDuration]
               else butlast appendProcessedVideos)
         else appendProcessedVideos)"

definition step3 :: "real \<Rightarrow> video_source list \<Rightarrow> media_file list \<Rightarrow> error + media_file list" where
  "step3 target appendVideos processedVideoFiles =
     (let currentTotalDuration = sum_list (map fileDuration processedVideoFiles);
          remainingAfterImages = target - currentTotalDuration
      in if remainingAfterImages > 0 \<and> length appendVideos > 0 then
           (case processAppendVideos remainingAfterImages 0 (downloadAppendVideos appendVideos) of
              Inl e \<Rightarrow> Inl e
            | Inr appendProcessedVideos \<Rightarrow>
                Inr (processedVideoFiles @
                     map AppendVideo (trimLastAppend remainingAfterImages appendProcessedVideos)))
         else Inr processedVideoFiles)"

subsection \<open>Step 4: the final concatenation and the response\<close>

text \<open>\<open>parseFloat(x.toFixed(2))\<close>: the nearest multiple of 0.01, a tie going away from zero.\<close>

definition toFixed2 :: "real \<Rightarrow> real" where
  "toFixed2 x =
     (if x < 0 then - (real_of_int \<lfloor>(- x) * 100 + 1/2\<rfloor> / 100)
      else real_of_int \<lfloor>x * 100 + 1/2\<rfloor> / 100)"

text \<open>The body of the handler's \<open>try\<close> block, on the normalized URL lists.\<close>

definition generateVideo ::
  "real \<Rightarrow> image_source list \<Rightarrow> video_source list \<Rightarrow> video_source list \<Rightarrow> error + response" where
  "generateVideo target images videos appendVideos =
     (case step1 target videos of
        Inl e \<Rightarrow> Inl e
      | Inr files1 \<Rightarrow>
          (case step3 target appendVideos (step2 target images files1) of
             Inl e \<Rightarrow> Inl e
           | Inr processedVideoFiles \<Rightarrow>
               if length processedVideoFiles = 0 then Inl NoVideoGenerated
               else
                 (let finalDuration = sum_list (map fileDuration processedVideoFiles);
                      actual = (if finalDuration > target then target else finalDuration)
                  in Inr \<lparr>res_files = processedVideoFiles,
                           actualDuration = actual,
                           res_duration = toFixed2 actual,
                           res_targetDuration = target\<rparr>)))"

text \<open>The handler: parameter validation, URL processing, then the \<open>try\<close> block.\<close>

definition generate :: "string \<Rightarrow> request \<Rightarrow> error + response" where
  "generate baseUrl req =
     (if targetDuration req \<le> 0 then Inl (InvalidRequest TargetDurationRequired)
      else if length (imageUrls req) = 0 \<and> length (videoUrls req) = 0
              \<and> length (appendVideoUrls req) = 0
      then Inl (InvalidRequest NoUrlsProvided)
      else generateVideo (targetDuration req)
             (normalizeImages baseUrl (imageUrls req))
             (normalizeVideos baseUrl (videoUrls req))
             (normalizeVideos baseUrl (appendVideoUrls req)))"

section \<open>The rounded embedding\<close>

subsection \<open>Subtitle timings in binary64\<close>

text \<open>
  \<open>calculateSubtitleTimings\<close> once more, with every arithmetic result rounded. The
  character counts and the indices are small integers, which binary64 holds exactly.
\<close>

definition idealDurationsD :: "jsstring list \<Rightarrow> real \<Rightarrow> real list" where
  "idealDurationsD segments totalDuration =
     (let timePerChar = fl (totalDuration / real (totalChars segments))
      in map (\<lambda>segment. max (1/2) (min (fl (totalDuration / 3))
                               (fl (real (charCount segment) * timePerChar))))
           segments)"

definition scaleFactorD :: "real list \<Rightarrow> real \<Rightarrow> real" where
  "scaleFactorD ideals totalDuration =
     (let idealTotal = dsum ideals
      in if idealTotal > totalDuration then fl (totalDuration / idealTotal) else 1)"

fun assignLoopD :: "real \<Rightarrow> real \<Rightarrow> real \<Rightarrow> (jsstring \<times> real) list \<Rightarrow> subtitle list" where
  "assignLoopD scale currentTime remainingTime [] = []"
| "assignLoopD scale currentTime remainingTime [(segment, ideal)] =
     [\<lparr>sub_text = segment, startTime = currentTime,
       endTime = fl (currentTime + remainingTime)\<rparr>]"
| "assignLoopD scale currentTime remainingTime ((segment, ideal) # rest) =
     (let segmentDuration = min (fl (ideal * scale))
                              (fl (remainingTime - fl ((1/2) * real (length rest))));
          segmentDuration = max (fl (3/10)) segmentDuration
      in \<lparr>sub_text = segment, startTime = currentTime,
           endTime = fl (currentTime + segmentDuration)\<rparr>
           # assignLoopD scale (fl (currentTime + segmentDuration))
               (fl (remainingTime - segmentDuration)) rest)"

definition calculateSubtitleTimingsD :: "jsstring list \<Rightarrow> real \<Rightarrow> real \<Rightarrow> subtitle list" where
  "calculateSubtitleTimingsD segments totalDuration start =
     (if length segments = 0 then []
      else if totalChars segments = 0 then
        (let segmentDuration = fl (totalDuration / real (length segments))
         in map (\<lambda>(index, seg).
                   \<lparr>sub_text = seg,
                    startTime = fl (start + fl (real index * segmentDuration)),
                    endTime = fl (start + fl ((real index + 1) * segmentDuration))\<rparr>)
              (enumerate 0 segments))
      else
        (let ideals = idealDurationsD segments totalDuration;
             scale = scaleFactorD ideals totalDuration;
             subtitles = assignLoopD scale start totalDuration (zip segments ideals)
         in setLastEndTime subtitles (fl (start + totalDuration))))"

subsection \<open>The handler in binary64, with the failures of its collaborators\<close>

text \<open>
  Every promise the handler awaits outside a \<open>try\<close> of its own can reject, and a
  rejection reaches the \<open>catch\<close> block of the handler (\<open>generation_failed\<close>). The
  downloads and the probes of the sources are outcomes carried by the sources; the other
  awaited operations are named here, and an environment says which of them resolve. The
  numbers are the positions in the loops, as in the names of the temporary files. A file
  that was written still lasts what the handler asked for, and a concatenation lasts the
  sum of its parts, added in order in binary64.
\<close>

datatype operation =
    MakeDirectories
  | ConvertVideo nat
  | WriteVideoList
  | ConcatVideos
  | ProbeConcatenated
  | TrimVideos
  | ProbeFirstFile
  | RenderImage nat
  | ProbeFile nat
  | ConvertAppendVideo nat
  | ProbeLastAppend
  | TrimLastAppend
  | WriteFinalList
  | FinalConcat
  | ProbeFinal
  | FinalTrim
  | UnlinkOutput
  | RenameTrimmed
  | ProbeActual

text \<open>\<open>await op; rest\<close> inside the handler's \<open>try\<close>.\<close>

definition attempt :: "(operation \<Rightarrow> bool) \<Rightarrow> operation \<Rightarrow> error + 'a \<Rightarrow> error + 'a" where
  "attempt env op rest = (if env op then rest else Inl GenerationFailed)"

fun processVideosD ::
  "(operation \<Rightarrow> bool) \<Rightarrow> real \<Rightarrow> nat \<Rightarrow> real \<Rightarrow> video_source list \<Rightarrow> error + real list" where
  "processVideosD env target i totalVideoDuration [] = Inr []"
| "processVideosD env target i totalVideoDuration (v # vs) =
     (case v_duration v of
        None \<Rightarrow> Inl GenerationFailed
      | Some duration \<Rightarrow>
          if env (ConvertVideo i) then
            (if fl (totalVideoDuration + duration) \<ge> target then Inr [duration]
             else (case processVideosD env target (Suc i) (fl (totalVideoDuration + duration)) vs of
                     Inl e \<Rightarrow> Inl e
                   | Inr processed \<Rightarrow> Inr (duration # processed)))
          else Inl GenerationFailed)"

definition step1D ::
  "(operation \<Rightarrow> bool) \<Rightarrow> real \<Rightarrow> video_source list \<Rightarrow> error + media_file list" where
  "step1D env target videos =
     (if length videos > 0 then
        (case downloadVideos videos of
           Inl e \<Rightarrow> Inl e
         | Inr downloadedVideoFiles \<Rightarrow>
             (case processVideosD env target 0 0 downloadedVideoFiles of
                Inl e \<Rightarrow> Inl e
              | Inr processedVideos \<Rightarrow>
                  if length processedVideos > 0 then
                    attempt env WriteVideoList (attempt env ConcatVideos
                      (attempt env ProbeConcatenated
                        (let concatenatedDuration = dsum processedVideos
                         in if concatenatedDuration > target
                            then attempt env TrimVideos (Inr [ClipsVideo target])
                            else Inr [ClipsVideo concatenatedDuration])))
                  else Inr []))
      else Inr [])"

fun imageLoopD ::
  "(operation \<Rightarrow> bool) \<Rightarrow> real \<Rightarrow> nat \<Rightarrow> real \<Rightarrow> (nat \<times> nat) list \<Rightarrow> error + media_file list" where
  "imageLoopD env remainingDuration i accumulatedDuration [] = Inr []"
| "imageLoopD env remainingDuration i accumulatedDuration ((width, height) # images) =
     (if scaledHeight width height > 1920 then
        (let imageVideoDuration = max 3 (fl (real_of_int (scaledHeight width height - 1920) / 100));
             imageVideoDuration =
               (if fl (accumulatedDuration + imageVideoDuration) > remainingDuration
                then max 1 (fl (remainingDuration - accumulatedDuration))
                else imageVideoDuration)
         in if env (RenderImage i) then
              (if fl (accumulatedDuration + imageVideoDuration) \<ge> remainingDuration
               then Inr [ScrollVideo width height imageVideoDuration]
               else (case imageLoopD env remainingDuration (Suc i)
                            (fl (accumulatedDuration + imageVideoDuration)) images of
                       Inl e \<Rightarrow> Inl e
                     | Inr files \<Rightarrow> Inr (ScrollVideo width height imageVideoDuration # files)))
            else Inl GenerationFailed)
      else
        (let imageVideoDuration = 5;
             imageVideoDuration =
               (if fl (accumulatedDuration + imageVideoDuration) > remainingDuration
                then max 1 (fl (remainingDuration - accumulatedDuration))
                else imageVideoDuration)
         in if env (RenderImage i) then
              (if fl (accumulatedDuration + imageVideoDuration) \<ge> remainingDuration
               then Inr [StaticVideo width height imageVideoDuration]
               else (case imageLoopD env remainingDuration (Suc i)
                            (fl (accumulatedDuration + imageVideoDuration)) images of
                       Inl e \<Rightarrow> Inl e
                     | Inr files \<Rightarrow> Inr (StaticVideo width height imageVideoDuration # files)))
            else Inl GenerationFailed))"

definition step2D ::
  "(operation \<Rightarrow> bool) \<Rightarrow> real \<Rightarrow> image_source list \<Rightarrow> media_file list \<Rightarrow> error + media_file list" where
  "step2D env target images processedVideoFiles =
     (case (if length processedVideoFiles > 0
            then attempt env ProbeFirstFile (Inr (fileDuration (hd processedVideoFiles)))
            else Inr 0) of
        Inl e \<Rightarrow> Inl e
      | Inr currentDuration \<Rightarrow>
          (let remainingDuration = fl (target - currentDuration)
           in if remainingDuration > 0 \<and> length images > 0 then
                (case imageLoopD env remainingDuration 0 0 (validImages (downloadImages images)) of
                   Inl e \<Rightarrow> Inl e
                 | Inr imageVideoFiles \<Rightarrow> Inr (processedVideoFiles @ imageVideoFiles))
              else Inr processedVideoFiles))"

text \<open>The loop of step 3 that probes every file and adds the durations up.\<close>

fun probeFiles :: "(operation \<Rightarrow> bool) \<Rightarrow> nat \<Rightarrow> real \<Rightarrow> media_file list \<Rightarrow> error + real" where
  "probeFiles env k currentTotalDuration [] = Inr currentTotalDuration"
| "probeFiles env k currentTotalDuration (videoFile # files) =
     (if env (ProbeFile k)
      then probeFiles env (Suc k) (fl (currentTotalDuration + fileDuration videoFile)) files
      else Inl GenerationFailed)"

fun processAppendVideosD ::
  "(operation \<Rightarrow> bool) \<Rightarrow> real \<Rightarrow> nat \<Rightarrow> real \<Rightarrow> video_source list \<Rightarrow> error + real list" where
  "processAppendVideosD env remainingAfterImages i appendAccumulatedDuration [] = Inr []"
| "processAppendVideosD env remainingAfterImages i appendAccumulatedDuration (v # vs) =
     (case v_duration v of
        None \<Rightarrow> Inl GenerationFailed
      | Some duration \<Rightarrow>
          if env (ConvertAppendVideo i) then
            (if fl (appendAccumulatedDuration + duration) \<ge> remainingAfterImages then Inr [duration]
             else (case processAppendVideosD env remainingAfterImages (Suc i)
                          (fl (appendAccumulatedDuration + duration)) vs of
                     Inl e \<Rightarrow> Inl e
                   | Inr processed \<Rightarrow> Inr (duration # processed)))
          else Inl GenerationFailed)"

definition trimLastAppendD ::
  "(operation \<Rightarrow> bool) \<Rightarrow> real \<Rightarrow> real list \<Rightarrow> error + real list" where
  "trimLastAppendD env remainingAfterImages appendProcessedVideos =
     (let appendAccumulatedDuration = dsum appendProcessedVideos
      in if length appendProcessedVideos > 0 \<and> appendAccumulatedDuration > remainingAfterImages then
           attempt env ProbeLastAppend
             (let lastVideoDuration = last appendProcessedVideos;
                  excessDuration = fl (appendAccumulatedDuration - remainingAfterImages);
                  trimmedDuration = fl (lastVideoDuration - excessDuration)
              in if trimmedDuration > 0
                 then attempt env TrimLastAppend
                        (Inr (appendProcessedVideos[length appendProcessedVideos - 1 := trimmedDuration]))
                 else Inr (butlast appendProcessedVideos))
         else Inr appendProcessedVideos)"

definition step3D ::
  "(operation \<Rightarrow> bool) \<Rightarrow> real \<Rightarrow> video_source list \<Rightarrow> media_file list \<Rightarrow> error + media_file list" where
  "step3D env target appendVideos processedVideoFiles =
     (case probeFiles env 0 0 processedVideoFiles of
        Inl e \<Rightarrow> Inl e
      | Inr currentTotalDuration \<Rightarrow>
          (let remainingAfterImages = fl (target - currentTotalDuration)
           in if remainingAfterImages > 0 \<and> length appendVideos > 0 then
                (case processAppendVideosD env remainingAfterImages 0 0
                        (downloadAppendVideos appendVideos) of
                   Inl e \<Rightarrow> Inl e
                 | Inr appendProcessedVideos \<Rightarrow>
                     (case trimLastAppendD env remainingAfterImages appendProcessedVideos of
                        Inl e \<Rightarrow> Inl e
                      | Inr trimmed \<Rightarrow> Inr (processedVideoFiles @ map AppendVideo trimmed)))
              else Inr processedVideoFiles))"

text \<open>Step 4: the final concatenation, the final cut and the response.\<close>

definition step4D ::
  "(operation \<Rightarrow> bool) \<Rightarrow> real \<Rightarrow> media_file list \<Rightarrow> error + response" where
  "step4D env target processedVideoFiles =
     (if length processedVideoFiles = 0 then Inl NoVideoGenerated
      else attempt env WriteFinalList (attempt env FinalConcat (attempt env ProbeFinal
        (let finalDuration = dsum (map fileDuration processedVideoFiles)
         in case (if finalDuration > target
                  then attempt env FinalTrim (attempt env UnlinkOutput
                         (attempt env RenameTrimmed (Inr target)))
                  else Inr finalDuration) of
              Inl e \<Rightarrow> Inl e
            | Inr outputDuration \<Rightarrow>
                attempt env ProbeActual
                  (Inr \<lparr>res_files = processedVideoFiles,
                        actualDuration = outputDuration,
                        res_duration = fl (toFixed2 outputDuration),
                        res_targetDuration = target\<rparr>)))))"

definition generateVideoD ::
  "(operation \<Rightarrow> bool) \<Rightarrow> real \<Rightarrow> image_source list \<Rightarrow> video_source list \<Rightarrow> video_source list
     \<Rightarrow> error + response" where
  "generateVideoD env target images videos appendVideos =
     attempt env MakeDirectories
       (case step1D env target videos of
          Inl e \<Rightarrow> Inl e
        | Inr files1 \<Rightarrow>
            (case step2D env target images files1 of
               Inl e \<Rightarrow> Inl e
             | Inr files2 \<Rightarrow>
                 (case step3D env target appendVideos files2 of
                    Inl e \<Rightarrow> Inl e
                  | Inr processedVideoFiles \<Rightarrow> step4D env target processedVideoFiles)))"

definition generateD :: "(operation \<Rightarrow> bool) \<Rightarrow> string \<Rightarrow> request \<Rightarrow> error + response" where
  "generateD env baseUrl req =
     (if targetDuration req \<le> 0 then Inl (InvalidRequest TargetDurationRequired)
      else if length (imageUrls req) = 0 \<and> length (videoUrls req) = 0
              \<and> length (appendVideoUrls req) = 0
      then Inl (InvalidRequest NoUrlsProvided)
      else generateVideoD env (targetDuration req)
             (normalizeImages baseUrl (imageUrls req))
             (normalizeVideos baseUrl (videoUrls req))
             (normalizeVideos baseUrl (appendVideoUrls req)))"

subsection \<open>Notions used to state the properties\<close>

text \<open>
  The loop over the valid images computes, for every image, a duration before clamping
  (\<open>scrollDuration\<close> or 5 seconds), clamps it against the remaining budget and writes a
  scrolling or a static video. The three parts are named here; \<open>imageLoop_Cons\<close> below
  shows that the loop is built from them. The candidates of a pool of videos are the probed
  durations of the videos that download and probe; a request has a usable source when some
  pool has a candidate; a hard failure is a failure the handler does not catch.
\<close>

definition candidateDuration :: "nat \<times> nat \<Rightarrow> real" where
  "candidateDuration im =
     (if scaledHeight (fst im) (snd im) > 1920 then scrollDuration (scaledHeight (fst im) (snd im))
      else 5)"

definition imageVideo :: "nat \<times> nat \<Rightarrow> real \<Rightarrow> media_file" where
  "imageVideo im d =
     (if scaledHeight (fst im) (snd im) > 1920 then ScrollVideo (fst im) (snd im) d
      else StaticVideo (fst im) (snd im) d)"

definition clampImage :: "real \<Rightarrow> real \<Rightarrow> real \<Rightarrow> real" where
  "clampImage remaining accumulated d =
     (if accumulated + d > remaining then max 1 (remaining - accumulated) else d)"

definition videoCandidates :: "video_source list \<Rightarrow> real list" where
  "videoCandidates videos = List.map_filter v_duration (filter v_download videos)"

definition candidateTotal :: "string \<Rightarrow> request \<Rightarrow> real" where
  "candidateTotal baseUrl req =
     sum_list (videoCandidates (normalizeVideos baseUrl (videoUrls req)))
     + sum_list (map candidateDuration (validImages (downloadImages (normalizeImages baseUrl (imageUrls req)))))
     + sum_list (videoCandidates (normalizeVideos baseUrl (appendVideoUrls req)))"

definition hasUsableSource :: "string \<Rightarrow> request \<Rightarrow> bool" where
  "hasUsableSource baseUrl req \<longleftrightarrow>
     videoCandidates (normalizeVideos baseUrl (videoUrls req)) \<noteq> []
     \<or> validImages (downloadImages (normalizeImages baseUrl (imageUrls req))) \<noteq> []
     \<or> videoCandidates (normalizeVideos baseUrl (appendVideoUrls req)) \<noteq> []"

definition hardFailure :: "string \<Rightarrow> request \<Rightarrow> bool" where
  "hardFailure baseUrl req \<longleftrightarrow>
     list_ex (\<lambda>v. \<not> v_download v \<or> v_duration v = None) (normalizeVideos baseUrl (videoUrls req))
     \<or> list_ex (\<lambda>v. v_download v \<and> v_duration v = None) (normalizeVideos baseUrl (appendVideoUrls req))"

text \<open>
  The same notions in the rounded embedding: a variable that \<open>+=\<close> runs over from a
  start value, the duration of an image before clamping, the clamp of the image loop, and
  the environment in which every operation resolves.
\<close>

definition accumulate :: "real \<Rightarrow> real list \<Rightarrow> real" where
  "accumulate acc ds = foldl (\<lambda>sum d. fl (sum + d)) acc ds"

definition candidateDurationD :: "nat \<times> nat \<Rightarrow> real" where
  "candidateDurationD im =
     (if scaledHeight (fst im) (snd im) > 1920
      then max 3 (fl (real_of_int (scaledHeight (fst im) (snd im) - 1920) / 100))
      else 5)"

definition clampImageD :: "real \<Rightarrow> real \<Rightarrow> real \<Rightarrow> real" where
  "clampImageD remaining accumulated d =
     (if fl (accumulated + d) > remaining then max 1 (fl (remaining - accumulated)) else d)"

definition allSucceed :: "operation \<Rightarrow> bool" where
  "allSucceed op \<longleftrightarrow> True"

section \<open>Properties of the subtitle timing synthesizer\<close>

lemma length_assignLoop [simp]: "length (assignLoop sc c r ps) = length ps"
  by (induction sc c r ps rule: assignLoop.induct) (auto simp: Let_def)

lemma assignLoop_first: "ps \<noteq> [] \<Longrightarrow> startTime (assignLoop sc c r ps ! 0) = c"
  by (induction sc c r ps rule: assignLoop.induct) (auto simp: Let_def)

lemma assignLoop_contiguous:
  "Suc i < length ps \<Longrightarrow>
   endTime (assignLoop sc c r ps ! i) = startTime (assignLoop sc c r ps ! Suc i)"
proof (induction sc c r ps arbitrary: i rule: assignLoop.induct)
  case (3 sc c r segment ideal v va)
  show ?case
  proof (cases i)
    case 0
    then show ?thesis by (simp add: Let_def assignLoop_first)
  next
    case (Suc j)
    with "3.prems" have "Suc j < length (v # va)" by simp
    from "3.IH"[OF refl refl this] Suc show ?thesis by (simp add: Let_def)
  qed
qed simp_all

lemma assignLoop_floor:
  "Suc i < length ps \<Longrightarrow>
   3/10 \<le> endTime (assignLoop sc c r ps ! i) - startTime (assignLoop sc c r ps ! i)"
proof (induction sc c r ps arbitrary: i rule: assignLoop.induct)
  case (3 sc c r segment ideal v va)
  show ?case
  proof (cases i)
    case 0
    then show ?thesis by (simp add: Let_def)
  next
    case (Suc j)
    with "3.prems" have "Suc j < length (v # va)" by simp
    from "3.IH"[OF refl refl this] Suc show ?thesis by (simp add: Let_def)
  qed
qed simp_all

lemma assignLoop_step:
  "assignLoop sc c r ((segment, ideal) # v # va) =
     \<lparr>sub_text = segment, startTime = c,
      endTime = c + max (3/10) (min (ideal * sc) (r - (1/2) * real (length (v # va))))\<rparr>
     # assignLoop sc (c + max (3/10) (min (ideal * sc) (r - (1/2) * real (length (v # va)))))
         (r - max (3/10) (min (ideal * sc) (r - (1/2) * real (length (v # va))))) (v # va)"
  by (simp add: Let_def)

lemma assignLoop_duration:
  "Suc i < length ps \<Longrightarrow>
   endTime (assignLoop sc c r ps ! i) - startTime (assignLoop sc c r ps ! i) =
     max (3/10) (min (snd (ps ! i) * sc)
       ((c + r - startTime (assignLoop sc c r ps ! i)) - (1/2) * real (length ps - i - 1)))"
proof (induction sc c r ps arbitrary: i rule: assignLoop.induct)
  case (1 sc c r)
  then show ?case by simp
next
  case (2 sc c r segment ideal)
  then show ?case by simp
next
  case (3 sc c r segment ideal v va)
  define d where "d = max (3/10) (min (ideal * sc) (r - (1/2) * real (length (v # va))))"
  have step: "assignLoop sc c r ((segment, ideal) # v # va) =
      \<lparr>sub_text = segment, startTime = c, endTime = c + d\<rparr> # assignLoop sc (c + d) (r - d) (v # va)"
    unfolding d_def by (rule assignLoop_step)
  show ?case
  proof (cases i)
    case 0
    have "length ((segment, ideal) # v # va) - 0 - 1 = length (v # va)" by simp
    then show ?thesis unfolding 0 step by (simp add: d_def)
  next
    case (Suc j)
    with "3.prems" have j: "Suc j < length (v # va)" by simp
    have len: "length ((segment, ideal) # v # va) - Suc j - 1 = length (v # va) - j - 1" by simp
    have nth: "assignLoop sc c r ((segment, ideal) # v # va) ! Suc j
        = assignLoop sc (c + d) (r - d) (v # va) ! j" unfolding step by simp
    have nth': "((segment, ideal) # v # va) ! Suc j = (v # va) ! j" by simp
    have cr: "c + d + (r - d) = c + r" by simp
    show ?thesis unfolding Suc nth nth' len
      using "3.IH"[OF refl refl j, folded d_def] unfolding cr .
  qed
qed

lemma assignLoop_reserve:
  "3/10 * real (length ps) \<le> r \<Longrightarrow> j < length ps \<Longrightarrow>
   startTime (assignLoop sc c r ps ! j) + 3/10 * real (length ps - j) \<le> c + r"
proof (induction sc c r ps arbitrary: j rule: assignLoop.induct)
  case (1 sc c r)
  then show ?case by simp
next
  case (2 sc c r segment ideal)
  then show ?case by simp
next
  case (3 sc c r segment ideal v va)
  define L where "L = real (length (v # va))"
  define d where "d = max (3/10) (min (ideal * sc) (r - (1/2) * L))"
  have L0: "0 \<le> L" by (simp add: L_def)
  have "real (length ((segment, ideal) # v # va)) = L + 1" by (simp add: L_def)
  with "3.prems"(1) have p1: "3/10 * (L + 1) \<le> r" by simp
  have "3/10 * (L + 1) = 3/10 * L + 3/10" by (simp add: distrib_left)
  with p1 have p: "3/10 * L + 3/10 \<le> r" by simp
  have d_cases: "d = 3/10 \<or> d \<le> r - (1/2) * L" unfolding d_def by linarith
  have step: "assignLoop sc c r ((segment, ideal) # v # va) =
      \<lparr>sub_text = segment, startTime = c, endTime = c + d\<rparr> # assignLoop sc (c + d) (r - d) (v # va)"
    unfolding d_def L_def by (rule assignLoop_step)
  show ?case
  proof (cases j)
    case 0
    have A: "startTime (assignLoop sc c r ((segment, ideal) # v # va) ! 0) = c"
      unfolding step by simp
    have B: "real (length ((segment, ideal) # v # va) - 0) = L + 1" by (simp add: L_def)
    show ?thesis unfolding 0 A B using p1 by linarith
  next
    case (Suc k)
    with "3.prems" have k: "k < length (v # va)" by simp
    have r': "3/10 * real (length (v # va)) \<le> r - d"
      using d_cases p L0 unfolding L_def[symmetric] by (elim disjE) linarith+
    have "startTime (assignLoop sc (c + d) (r - d) (v # va) ! k) + 3/10 * real (length (v # va) - k)
        \<le> (c + d) + (r - d)"
      unfolding d_def L_def
      by (rule "3.IH"[OF refl refl r'[unfolded d_def L_def] k])
    moreover have "length ((segment, ideal) # v # va) - Suc k = length (v # va) - k" by simp
    moreover have "assignLoop sc c r ((segment, ideal) # v # va) ! Suc k
        = assignLoop sc (c + d) (r - d) (v # va) ! k" unfolding step by simp
    ultimately show ?thesis unfolding Suc by (simp only:)
  qed
qed

lemma length_setLastEndTime [simp]: "length (setLastEndTime xs t) = length xs"
  by (simp add: setLastEndTime_def)

lemma startTime_setLastEndTime [simp]:
  "i < length xs \<Longrightarrow> startTime (setLastEndTime xs t ! i) = startTime (xs ! i)"
  by (cases "i = length xs - 1") (auto simp: setLastEndTime_def last_conv_nth)

lemma endTime_setLastEndTime_nonlast [simp]:
  "Suc i < length xs \<Longrightarrow> endTime (setLastEndTime xs t ! i) = endTime (xs ! i)"
  by (simp add: setLastEndTime_def)

lemma endTime_setLastEndTime_last [simp]:
  "xs \<noteq> [] \<Longrightarrow> endTime (last (setLastEndTime xs t)) = t"
  by (simp add: setLastEndTime_def last_list_update)

lemma length_idealDurations [simp]: "length (idealDurations segments T) = length segments"
  by (simp add: idealDurations_def)

lemma length_calculateSubtitleTimings:
  "length (calculateSubtitleTimings segments T s) = length segments"
  by (simp add: calculateSubtitleTimings_def Let_def)

lemma length_assignLoopD [simp]: "length (assignLoopD sc c r ps) = length ps"
  by (induction sc c r ps rule: assignLoopD.induct) (auto simp: Let_def)

lemma weighted_block_end:
  assumes "0 < totalChars segments"
  shows "endTime (last (calculateSubtitleTimingsD segments totalDuration start))
           = fl (start + totalDuration)"
proof -
  have ne: "segments \<noteq> []" using assms by (auto simp: totalChars_def)
  define out where "out = assignLoopD
      (scaleFactorD (idealDurationsD segments totalDuration) totalDuration) start totalDuration
      (zip segments (idealDurationsD segments totalDuration))"
  have "length out = length segments" by (simp add: out_def idealDurationsD_def)
  with ne have "out \<noteq> []" by auto
  moreover have "calculateSubtitleTimingsD segments totalDuration start
      = setLastEndTime out (fl (start + totalDuration))"
    using ne assms by (simp add: calculateSubtitleTimingsD_def Let_def out_def)
  ultimately show ?thesis by simp
qed

text \<open>
  C3. The code diverges from the claim on a block whose segments are all punctuation. The
  branch for a total weight of zero returns an even split at once and never reaches the
  statement that sets the end of the last fragment to \<open>startTime + totalDuration\<close>, which
  the weighted branch executes (\<open>weighted_block_end\<close>). For the text of three ideographic
  full stops in a block of 0.9 seconds that starts at 0, the last fragment ends at
  \<open>0 + 3 * (0.9 / 3)\<close>, which is 0.8999999999999999 in binary64, and not at
  \<open>0 + 0.9\<close>.
\<close>

theorem punctuation_only_block_end:
  "endTime (last (calculateSubtitleTimingsD [[12290], [12290], [12290]] (fl (9/10)) 0))
     = 2026619832316723 / 2251799813685248
   \<and> fl (0 + fl (9/10)) = 8106479329266893 / 9007199254740992
   \<and> endTime (last (calculateSubtitleTimingsD [[12290], [12290], [12290]] (fl (9/10)) 0))
       \<noteq> fl (0 + fl (9/10))"
  by (simp add: calculateSubtitleTimingsD_def totalChars_def charCount_def punctuationRegex_def
        isWhiteSpace_def Let_def) code_simp

lemma nth_idealDurations:
  "i < length segments \<Longrightarrow>
   idealDurations segments T ! i =
     max (1/2) (min (T / 3) (real (charCount (segments ! i)) * (T / real (totalChars segments))))"
  by (simp add: idealDurations_def Let_def)

text \<open>
  C9 (amended). For segments of positive total weight, the ideal duration of every fragment
  is \<open>max(0.5, min(totalDuration/3, weight * (totalDuration / totalWeight)))\<close>. It is at
  least half a second for every block; it is at most a third of the block when the block
  lasts at least 1.5 seconds. In a shorter block the floor of half a second wins over the
  ceiling of a third.
\<close>

theorem ideal_duration_bounds:
  assumes "0 < totalChars segments" and "i < length segments"
  shows "idealDurations segments totalDuration ! i =
           max (1/2) (min (totalDuration / 3)
             (real (charCount (segments ! i)) * (totalDuration / real (totalChars segments))))
       \<and> 1/2 \<le> idealDurations segments totalDuration ! i
       \<and> (3/2 \<le> totalDuration \<longrightarrow> idealDurations segments totalDuration ! i \<le> totalDuration / 3)"
proof -
  note e = nth_idealDurations[OF assms(2), of totalDuration]
  have "1/2 \<le> idealDurations segments totalDuration ! i" unfolding e by simp
  moreover have "idealDurations segments totalDuration ! i \<le> totalDuration / 3"
    if "3/2 \<le> totalDuration"
  proof -
    have "1/2 \<le> totalDuration / 3" using that by simp
    then show ?thesis unfolding e by (intro max.boundedI min.cobounded1)
  qed
  ultimately show ?thesis using e by blast
qed

theorem ideal_duration_bounds_witness:
  "idealDurations [[97, 98], [99, 12290]] 6 ! 0 = 2
   \<and> 1/2 \<le> idealDurations [[97, 98], [99, 12290]] 6 ! 0
   \<and> idealDurations [[97, 98], [99, 12290]] 6 ! 0 \<le> 6 / 3"
proof -
  have a: "0 < totalChars [[97, 98], [99, 12290]]"
    by (simp add: totalChars_def charCount_def punctuationRegex_def isWhiteSpace_def)
  have b: "0 < length [[97, 98], [99, 12290::nat]]" by simp
  have c: "(3::real)/2 \<le> 6" by simp
  from ideal_duration_bounds[OF a b, of 6] c show ?thesis
    by (simp add: totalChars_def charCount_def punctuationRegex_def isWhiteSpace_def)
qed

text \<open>
  C9 as stated fails: one segment of weight 1 in a block of 1 second has the ideal duration
  0.5, more than a third of the block.
\<close>

theorem ideal_duration_third_counterexample:
  "0 < totalChars [[97]] \<and> idealDurations [[97]] 1 ! 0 = 1/2
   \<and> \<not> idealDurations [[97]] 1 ! 0 \<le> 1 / 3"
  by (simp add: idealDurations_def totalChars_def charCount_def punctuationRegex_def isWhiteSpace_def)

lemma calculateSubtitleTimings_weighted:
  assumes "0 < totalChars segments"
  shows "calculateSubtitleTimings segments T s =
     setLastEndTime
       (assignLoop (scaleFactor (idealDurations segments T) T) s T
          (zip segments (idealDurations segments T)))
       (s + T)"
proof -
  have "segments \<noteq> []" using assms by (auto simp: totalChars_def)
  then show ?thesis using assms by (simp add: calculateSubtitleTimings_def Let_def)
qed

text \<open>
  C10 (amended). When the segments have positive total weight, every fragment but the last
  lasts at least 0.3 seconds, for every block duration and start offset. (Segments of weight
  zero are spread evenly instead, with no floor.)
\<close>

theorem nonlast_fragment_floor:
  assumes "0 < totalChars segments" and "Suc i < length segments"
  shows "3/10 \<le> endTime (calculateSubtitleTimings segments totalDuration start ! i)
               - startTime (calculateSubtitleTimings segments totalDuration start ! i)"
proof -
  define ps where "ps = zip segments (idealDurations segments totalDuration)"
  define out where "out = assignLoop (scaleFactor (idealDurations segments totalDuration) totalDuration)
      start totalDuration ps"
  have fs: "calculateSubtitleTimings segments totalDuration start
      = setLastEndTime out (start + totalDuration)"
    unfolding out_def ps_def by (rule calculateSubtitleTimings_weighted[OF assms(1)])
  have lps: "length ps = length segments" by (simp add: ps_def)
  have i: "Suc i < length ps" "Suc i < length out" "i < length out"
    using assms(2) lps by (simp_all add: out_def)
  have "3/10 \<le> endTime (out ! i) - startTime (out ! i)"
    unfolding out_def by (rule assignLoop_floor[OF i(1)])
  then show ?thesis unfolding fs using i by simp
qed

theorem nonlast_fragment_floor_witness:
  "3/10 \<le> endTime (calculateSubtitleTimings [[97], [98]] (1/5) 0 ! 0)
             - startTime (calculateSubtitleTimings [[97], [98]] (1/5) 0 ! 0)"
proof -
  have a: "0 < totalChars [[97], [98]]"
    by (simp add: totalChars_def charCount_def punctuationRegex_def isWhiteSpace_def)
  have b: "Suc 0 < length [[97], [98::nat]]" by simp
  show ?thesis by (rule nonlast_fragment_floor[OF a b])
qed

text \<open>
  C10 as stated fails on segments of weight zero: two segments of pure punctuation in a block
  of 0.4 seconds get 0.2 seconds each.
\<close>

theorem nonlast_fragment_floor_counterexample:
  "calculateSubtitleTimings [[12290], [12290]] (2/5) 0 =
     [\<lparr>sub_text = [12290], startTime = 0, endTime = 1/5\<rparr>,
      \<lparr>sub_text = [12290], startTime = 1/5, endTime = 2/5\<rparr>]
   \<and> \<not> 3/10 \<le> endTime (calculateSubtitleTimings [[12290], [12290]] (2/5) 0 ! 0)
              - startTime (calculateSubtitleTimings [[12290], [12290]] (2/5) 0 ! 0)"
  by (simp add: calculateSubtitleTimings_def totalChars_def charCount_def punctuationRegex_def
      isWhiteSpace_def Let_def)

text \<open>
  C8 (amended). In the sequential assignment (segments of positive total weight), for every
  block duration, the duration of a fragment that is not the last is
  \<open>max(0.3, min(scaled ideal duration, remainingTime - 0.5 * (fragmentsLeft - 1)))\<close>, where
  \<open>remainingTime\<close> is the end of the block minus the fragment's start. When moreover the
  block lasts at least 0.3 seconds per fragment, that duration is at most
  \<open>remainingTime - 0.3 * (fragmentsLeft - 1)\<close>, and every fragment, the last included, lasts
  at least 0.3 seconds: none has a negative duration.
\<close>

theorem sequential_cap:
  assumes "0 < totalChars segments"
    and "Suc i < length segments"
  shows "endTime (calculateSubtitleTimings segments totalDuration start ! i)
           - startTime (calculateSubtitleTimings segments totalDuration start ! i)
         = max (3/10)
             (min (idealDurations segments totalDuration ! i
                    * scaleFactor (idealDurations segments totalDuration) totalDuration)
                  ((start + totalDuration
                      - startTime (calculateSubtitleTimings segments totalDuration start ! i))
                   - 1/2 * real (length segments - i - 1)))
       \<and> (3/10 * real (length segments) \<le> totalDuration \<longrightarrow>
            endTime (calculateSubtitleTimings segments totalDuration start ! i)
              - startTime (calculateSubtitleTimings segments totalDuration start ! i)
            \<le> (start + totalDuration
                  - startTime (calculateSubtitleTimings segments totalDuration start ! i))
                - 3/10 * real (length segments - i - 1)
          \<and> (\<forall>j < length segments.
                3/10 \<le> endTime (calculateSubtitleTimings segments totalDuration start ! j)
                         - startTime (calculateSubtitleTimings segments totalDuration start ! j)))"
proof -
  define ideals where "ideals = idealDurations segments totalDuration"
  define ps where "ps = zip segments ideals"
  define sc where "sc = scaleFactor ideals totalDuration"
  define out where "out = assignLoop sc start totalDuration ps"
  define fs where "fs = calculateSubtitleTimings segments totalDuration start"
  have fs: "fs = setLastEndTime out (start + totalDuration)"
    unfolding fs_def out_def ps_def sc_def ideals_def
    by (rule calculateSubtitleTimings_weighted[OF assms(1)])
  have lps: "length ps = length segments" by (simp add: ps_def ideals_def)
  have lout: "length out = length segments" by (simp add: out_def lps)
  have i: "Suc i < length ps" "Suc i < length out" "i < length out"
    using assms(2) lps by (simp_all add: out_def)
  have st: "startTime (fs ! j) = startTime (out ! j)" if "j < length segments" for j
    unfolding fs using that lout by simp
  have en: "endTime (fs ! j) = endTime (out ! j)" if "Suc j < length segments" for j
    unfolding fs using that lout by simp
  have "snd (ps ! i) = ideals ! i" using assms(2) by (simp add: ps_def ideals_def)
  then have dur: "endTime (out ! i) - startTime (out ! i) =
      max (3/10) (min (ideals ! i * sc)
        ((start + totalDuration - startTime (out ! i)) - (1/2) * real (length segments - i - 1)))"
    using assignLoop_duration[OF i(1), of sc start totalDuration] unfolding out_def lps by simp
  have i': "i < length segments" using assms(2) by simp
  have cap: "endTime (out ! i) - startTime (out ! i)
      \<le> (start + totalDuration - startTime (out ! i)) - 3/10 * real (length segments - i - 1)"
    if res: "3/10 * real (length ps) \<le> totalDuration"
  proof -
    have "startTime (out ! Suc i) + 3/10 * real (length ps - Suc i) \<le> start + totalDuration"
      unfolding out_def by (rule assignLoop_reserve[OF res i(1)])
    moreover have "endTime (out ! i) = startTime (out ! Suc i)"
      unfolding out_def by (rule assignLoop_contiguous[OF i(1)])
    moreover have "length ps - Suc i = length segments - i - 1" using lps by simp
    ultimately show ?thesis by simp
  qed
  have pos: "3/10 \<le> endTime (fs ! j) - startTime (fs ! j)"
    if res: "3/10 * real (length ps) \<le> totalDuration" and j: "j < length segments" for j
  proof (cases "Suc j < length segments")
    case True
    then have "Suc j < length ps" using lps by simp
    from assignLoop_floor[OF this, of sc start totalDuration]
    show ?thesis using st[OF j] en[OF True] by (simp add: out_def)
  next
    case False
    with j have jl: "j = length out - 1" using lout by simp
    have ne: "out \<noteq> []" using j lout by auto
    have "j < length ps" using j lps by simp
    from assignLoop_reserve[OF res this, of sc start]
    have "startTime (out ! j) + 3/10 * real (length ps - j) \<le> start + totalDuration"
      by (simp add: out_def)
    moreover have "length ps - j = 1" using jl lps lout j by simp
    ultimately have "startTime (out ! j) + 3/10 \<le> start + totalDuration" by simp
    moreover have "endTime (fs ! j) = start + totalDuration"
    proof -
      have "fs \<noteq> []" using ne fs by (metis length_0_conv length_setLastEndTime)
      then have "fs ! j = last fs" using jl fs by (simp add: last_conv_nth)
      then show ?thesis using ne fs by simp
    qed
    ultimately show ?thesis using st[OF j] by simp
  qed
  have A: "endTime (fs ! i) - startTime (fs ! i)
         = max (3/10) (min (ideals ! i * sc)
                  ((start + totalDuration - startTime (fs ! i))
                   - 1/2 * real (length segments - i - 1)))"
    using dur st[OF i'] en[OF assms(2)] by simp
  have B: "endTime (fs ! i) - startTime (fs ! i)
            \<le> (start + totalDuration - startTime (fs ! i)) - 3/10 * real (length segments - i - 1)
          \<and> (\<forall>j < length segments. 3/10 \<le> endTime (fs ! j) - startTime (fs ! j))"
    if "3/10 * real (length segments) \<le> totalDuration"
  proof -
    from that have res: "3/10 * real (length ps) \<le> totalDuration" using lps by simp
    from cap[OF res] pos[OF res] show ?thesis using st[OF i'] en[OF assms(2)] by simp
  qed
  from A B show ?thesis
    unfolding fs_def[symmetric] ideals_def[symmetric] sc_def[symmetric] by blast
qed

theorem sequential_cap_witness:
  "0 < totalChars [[97], [98]]
   \<and> Suc 0 < length [[97], [98::nat]]
   \<and> 3/10 * real (length [[97], [98::nat]]) \<le> (2::real)
   \<and> endTime (calculateSubtitleTimings [[97], [98]] 2 0 ! 0)
         - startTime (calculateSubtitleTimings [[97], [98]] 2 0 ! 0)
       = max (3/10)
             (min (idealDurations [[97], [98]] 2 ! 0 * scaleFactor (idealDurations [[97], [98]] 2) 2)
                  ((0 + 2 - startTime (calculateSubtitleTimings [[97], [98]] 2 0 ! 0))
                   - 1/2 * real (length [[97], [98::nat]] - 0 - 1)))
   \<and> endTime (calculateSubtitleTimings [[97], [98]] 2 0 ! 0)
         - startTime (calculateSubtitleTimings [[97], [98]] 2 0 ! 0)
       \<le> (0 + 2 - startTime (calculateSubtitleTimings [[97], [98]] 2 0 ! 0))
           - 3/10 * real (length [[97], [98::nat]] - 0 - 1)
   \<and> 3/10 \<le> endTime (calculateSubtitleTimings [[97], [98]] 2 0 ! 1)
              - startTime (calculateSubtitleTimings [[97], [98]] 2 0 ! 1)
   \<and> endTime (calculateSubtitleTimings [[97], [98]] (1/5) 0 ! 0)
         - startTime (calculateSubtitleTimings [[97], [98]] (1/5) 0 ! 0)
       = max (3/10)
             (min (idealDurations [[97], [98]] (1/5) ! 0
                     * scaleFactor (idealDurations [[97], [98]] (1/5)) (1/5))
                  ((0 + 1/5 - startTime (calculateSubtitleTimings [[97], [98]] (1/5) 0 ! 0))
                   - 1/2 * real (length [[97], [98::nat]] - 0 - 1)))"
proof -
  have a: "0 < totalChars [[97], [98]]"
    by (simp add: totalChars_def charCount_def punctuationRegex_def isWhiteSpace_def)
  have b: "3/10 * real (length [[97], [98::nat]]) \<le> (2::real)" by simp
  have c: "Suc 0 < length [[97], [98::nat]]" by simp
  note t = sequential_cap [OF a c, of 2 0]
  note u = sequential_cap [OF a c, of "1/5" 0]
  from t have t1: "endTime (calculateSubtitleTimings [[97], [98]] 2 0 ! 0)
         - startTime (calculateSubtitleTimings [[97], [98]] 2 0 ! 0)
       = max (3/10)
             (min (idealDurations [[97], [98]] 2 ! 0 * scaleFactor (idealDurations [[97], [98]] 2) 2)
                  ((0 + 2 - startTime (calculateSubtitleTimings [[97], [98]] 2 0 ! 0))
                   - 1/2 * real (length [[97], [98::nat]] - 0 - 1)))"
    by blast
  from t b have t2: "endTime (calculateSubtitleTimings [[97], [98]] 2 0 ! 0)
         - startTime (calculateSubtitleTimings [[97], [98]] 2 0 ! 0)
       \<le> (0 + 2 - startTime (calculateSubtitleTimings [[97], [98]] 2 0 ! 0))
           - 3/10 * real (length [[97], [98::nat]] - 0 - 1)"
    by blast
  from t b have "\<forall>j < length [[97], [98::nat]].
         3/10 \<le> endTime (calculateSubtitleTimings [[97], [98]] 2 0 ! j)
                  - startTime (calculateSubtitleTimings [[97], [98]] 2 0 ! j)"
    by blast
  then have t3: "3/10 \<le> endTime (calculateSubtitleTimings [[97], [98]] 2 0 ! 1)
              - startTime (calculateSubtitleTimings [[97], [98]] 2 0 ! 1)"
    by simp
  from u have u1: "endTime (calculateSubtitleTimings [[97], [98]] (1/5) 0 ! 0)
         - startTime (calculateSubtitleTimings [[97], [98]] (1/5) 0 ! 0)
       = max (3/10)
             (min (idealDurations [[97], [98]] (1/5) ! 0
                     * scaleFactor (idealDurations [[97], [98]] (1/5)) (1/5))
                  ((0 + 1/5 - startTime (calculateSubtitleTimings [[97], [98]] (1/5) 0 ! 0))
                   - 1/2 * real (length [[97], [98::nat]] - 0 - 1)))"
    by blast
  from a b c t1 t2 t3 u1 show ?thesis by blast
qed

text \<open>
  C8 as stated fails: with two segments in a block of 0.2 seconds the first fragment lasts
  0.3 seconds, more than \<open>remainingTime - 0.3 * (fragmentsLeft - 1) = -0.1\<close>, and the last
  fragment starts at 0.3 and ends at 0.2, a negative duration.
\<close>

theorem sequential_cap_counterexample:
  "calculateSubtitleTimings [[97], [98]] (1/5) 0 =
     [\<lparr>sub_text = [97], startTime = 0, endTime = 3/10\<rparr>,
      \<lparr>sub_text = [98], startTime = 3/10, endTime = 1/5\<rparr>]
   \<and> \<not> (endTime (calculateSubtitleTimings [[97], [98]] (1/5) 0 ! 0)
           - startTime (calculateSubtitleTimings [[97], [98]] (1/5) 0 ! 0)
         \<le> (0 + 1/5 - startTime (calculateSubtitleTimings [[97], [98]] (1/5) 0 ! 0))
             - 3/10 * real (length [[97], [98::nat]] - 0 - 1))
   \<and> endTime (calculateSubtitleTimings [[97], [98]] (1/5) 0 ! 1)
       < startTime (calculateSubtitleTimings [[97], [98]] (1/5) 0 ! 1)"
  by (simp add: calculateSubtitleTimings_def totalChars_def charCount_def punctuationRegex_def
      isWhiteSpace_def idealDurations_def scaleFactor_def setLastEndTime_def Let_def)


section \<open>Properties of the video generation\<close>

lemma fileDuration_imageVideo [simp]: "fileDuration (imageVideo im d) = d"
  by (simp add: imageVideo_def)

lemma candidateDuration_ge3: "3 \<le> candidateDuration im"
  by (simp add: candidateDuration_def scrollDuration_def)

lemma imageLoop_Cons:
  "imageLoop rem acc (im # images) =
     imageVideo im (clampImage rem acc (candidateDuration im)) #
       (if acc + clampImage rem acc (candidateDuration im) \<ge> rem then []
        else imageLoop rem (acc + clampImage rem acc (candidateDuration im)) images)"
  by (cases im) (auto simp add: imageVideo_def clampImage_def candidateDuration_def Let_def max_def)

lemma clampImage_min:
  "clampImage rem acc (candidateDuration im) = min (candidateDuration im) (max 1 (rem - acc))"
  using candidateDuration_ge3[of im] unfolding clampImage_def by (simp add: min_def max_def)

lemma clampImage_bounds:
  "1 \<le> clampImage rem acc (candidateDuration im)"
  "clampImage rem acc (candidateDuration im) \<le> candidateDuration im"
  using candidateDuration_ge3[of im] unfolding clampImage_min by (simp_all add: min_def max_def)

lemma length_imageLoop: "length (imageLoop rem acc images) \<le> length images"
proof (induction images arbitrary: acc)
  case Nil
  show ?case by simp
next
  case (Cons im images)
  show ?case unfolding imageLoop_Cons using Cons.IH by (simp add: le_SucI)
qed


lemma imageLoop_nth:
  "i < length (imageLoop rem acc images) \<Longrightarrow>
   imageLoop rem acc images ! i =
     imageVideo (images ! i)
       (clampImage rem (acc + sum_list (map fileDuration (take i (imageLoop rem acc images))))
          (candidateDuration (images ! i)))"
proof (induction images arbitrary: acc i)
  case Nil
  then show ?case by simp
next
  case (Cons im images)
  define d where "d = clampImage rem acc (candidateDuration im)"
  have step: "imageLoop rem acc (im # images) =
      imageVideo im d # (if acc + d \<ge> rem then [] else imageLoop rem (acc + d) images)"
    unfolding d_def by (rule imageLoop_Cons)
  show ?case
  proof (cases i)
    case 0
    show ?thesis unfolding 0 step by (simp add: d_def)
  next
    case (Suc j)
    from Cons.prems have nb: "\<not> acc + d \<ge> rem" unfolding step Suc by (auto split: if_splits)
    then have step': "imageLoop rem acc (im # images) = imageVideo im d # imageLoop rem (acc + d) images"
      unfolding step by simp
    from Cons.prems have j: "j < length (imageLoop rem (acc + d) images)" unfolding step' Suc by simp
    show ?thesis unfolding Suc step' using Cons.IH[OF j] by (simp add: add.assoc)
  qed
qed

lemma imageLoop_total:
  "acc + sum_list (map fileDuration (imageLoop rem acc images)) \<ge> rem
   \<or> map fileDuration (imageLoop rem acc images) = map candidateDuration images"
proof (induction images arbitrary: acc)
  case Nil
  show ?case by simp
next
  case (Cons im images)
  define d where "d = clampImage rem acc (candidateDuration im)"
  have step: "imageLoop rem acc (im # images) =
      imageVideo im d # (if acc + d \<ge> rem then [] else imageLoop rem (acc + d) images)"
    unfolding d_def by (rule imageLoop_Cons)
  show ?case
  proof (cases "acc + d \<ge> rem")
    case True
    then show ?thesis unfolding step by simp
  next
    case False
    then have dc: "d = candidateDuration im" unfolding d_def clampImage_def by (auto split: if_splits)
    from False have step': "imageLoop rem acc (im # images) = imageVideo im d # imageLoop rem (acc + d) images"
      unfolding step by simp
    from Cons.IH[of "acc + d"] show ?thesis unfolding step' by (auto simp: dc add.assoc)
  qed
qed


lemma toFixed2_upper: "toFixed2 x \<le> x + 1/200"
proof (cases "x < 0")
  case True
  have "(- x) * 100 + 1/2 - 1 < real_of_int \<lfloor>(- x) * 100 + 1/2\<rfloor>" by linarith
  then have "- (real_of_int \<lfloor>(- x) * 100 + 1/2\<rfloor> / 100) \<le> x + 1/200" by simp
  with True show ?thesis by (simp only: toFixed2_def if_True)
next
  case False
  have "real_of_int \<lfloor>x * 100 + 1/2\<rfloor> \<le> x * 100 + 1/2" by linarith
  then have "real_of_int \<lfloor>x * 100 + 1/2\<rfloor> / 100 \<le> x + 1/200" by simp
  with False show ?thesis by (simp only: toFixed2_def if_False)
qed

lemma generate_Inr:
  assumes "generate baseUrl req = Inr r"
  obtains files f1 where
    "0 < targetDuration req"
    "step1 (targetDuration req) (normalizeVideos baseUrl (videoUrls req)) = Inr f1"
    "step3 (targetDuration req) (normalizeVideos baseUrl (appendVideoUrls req))
       (step2 (targetDuration req) (normalizeImages baseUrl (imageUrls req)) f1) = Inr files"
    "files \<noteq> []"
    "res_files r = files"
    "actualDuration r = min (sum_list (map fileDuration files)) (targetDuration req)"
    "res_duration r = toFixed2 (actualDuration r)"
    "res_targetDuration r = targetDuration req"
  using assms unfolding generate_def generateVideo_def Let_def
  by (auto split: if_splits sum.splits simp: min_def)

text \<open>The definitions a concrete request is evaluated with.\<close>

lemma scaledHeight_1000_1000: "scaledHeight 1000 1000 = 1080"
  unfolding scaledHeight_def by simp code_simp

lemma scaledHeight_1000_2000: "scaledHeight 1000 2000 = 2160"
  unfolding scaledHeight_def by simp code_simp

lemma scaledHeight_500_500: "scaledHeight 500 500 = 1080"
  unfolding scaledHeight_def by simp code_simp

lemma scaledHeight_688_2365: "scaledHeight 688 2365 = 3712"
  unfolding scaledHeight_def by simp code_simp

lemmas scaledHeight_eval =
  scaledHeight_1000_1000 scaledHeight_1000_2000 scaledHeight_500_500 scaledHeight_688_2365

lemmas eval_defs =
  generate_def generateVideo_def normalizeImages_def normalizeVideos_def normalizeUrl_def
  step1_def step2_def step3_def downloadImages_def downloadAppendVideos_def validImages_def
  trimLastAppend_def List.map_filter_simps scaledHeight_eval scrollDuration_def toFixed2_def
  videoCandidates_def candidateDuration_def candidateTotal_def hasUsableSource_def clampImage_def
  Let_def

text \<open>
  C1. Whenever the handler answers with a video, the duration of the final file
  (\<open>actualDuration\<close>, probed after the final cut) is at most the target duration, and the
  \<open>duration\<close> field of the response, which is rounded to two decimals, exceeds the target
  by at most 0.005 seconds, less than one frame at 30 frames per second.
\<close>

theorem total_duration_within_target:
  assumes "generate baseUrl req = Inr r"
  shows "actualDuration r \<le> targetDuration req \<and> res_duration r \<le> targetDuration req + 1/200"
proof -
  from assms obtain files where
    a: "actualDuration r = min (sum_list (map fileDuration files)) (targetDuration req)"
    and d: "res_duration r = toFixed2 (actualDuration r)"
    by (rule generate_Inr)
  have 1: "actualDuration r \<le> targetDuration req" unfolding a by simp
  have "res_duration r \<le> actualDuration r + 1/200" unfolding d by (rule toFixed2_upper)
  with 1 show ?thesis by simp
qed

theorem total_duration_within_target_witness:
  "generate ''http://cdn''
     \<lparr>targetDuration = 5003/500,
      imageUrls = [\<lparr>i_url = ''/a.jpg'', i_download = True, i_dimensions = Some (1000, 1000)\<rparr>],
      videoUrls = [],
      appendVideoUrls = [\<lparr>v_url = ''/v1.mp4'', v_download = True, v_duration = Some 4\<rparr>,
                         \<lparr>v_url = ''/v2.mp4'', v_download = True, v_duration = Some 4\<rparr>]\<rparr>
   = Inr \<lparr>res_files = [StaticVideo 1000 1000 5, AppendVideo 4, AppendVideo (503/500)],
          actualDuration = 5003/500, res_duration = 1001/100, res_targetDuration = 5003/500\<rparr>
   \<and> (5003/500 :: real) \<le> 5003/500 \<and> (1001/100 :: real) \<le> 5003/500 + 1/200"
proof -
  let ?req = "\<lparr>targetDuration = 5003/500,
      imageUrls = [\<lparr>i_url = ''/a.jpg'', i_download = True, i_dimensions = Some (1000, 1000)\<rparr>],
      videoUrls = [],
      appendVideoUrls = [\<lparr>v_url = ''/v1.mp4'', v_download = True, v_duration = Some 4\<rparr>,
                         \<lparr>v_url = ''/v2.mp4'', v_download = True, v_duration = Some 4\<rparr>]\<rparr>"
  let ?res = "\<lparr>res_files = [StaticVideo 1000 1000 5, AppendVideo 4, AppendVideo (503/500)],
          actualDuration = 5003/500, res_duration = 1001/100, res_targetDuration = 5003/500\<rparr>"
  have g: "generate ''http://cdn'' ?req = Inr ?res" by (simp add: eval_defs)
  from total_duration_within_target [OF g] g show ?thesis by simp
qed

lemma processAppendVideos_eq: "processAppendVideos rem acc vs = processVideos rem acc vs"
  by (induction vs arbitrary: acc) (auto split: option.splits sum.splits)

lemma processVideos_nonempty: "processVideos t acc vs = Inr ds \<Longrightarrow> vs \<noteq> [] \<Longrightarrow> ds \<noteq> []"
  by (cases vs) (auto split: option.splits sum.splits if_splits)

lemma processVideos_prefix:
  "processVideos t acc vs = Inr ds \<Longrightarrow> map Some ds = take (length ds) (map v_duration vs)"
proof (induction vs arbitrary: acc ds)
  case Nil
  then show ?case by simp
next
  case (Cons v vs)
  then show ?case by (auto split: option.splits sum.splits if_splits)
qed

lemma processVideos_short:
  "processVideos t acc vs = Inr ds \<Longrightarrow> acc + sum_list ds < t \<Longrightarrow> map v_duration vs = map Some ds"
proof (induction vs arbitrary: acc ds)
  case Nil
  then show ?case by simp
next
  case (Cons v vs)
  from Cons.prems obtain d where d: "v_duration v = Some d"
    by (auto split: option.splits)
  show ?case
  proof (cases "acc + d \<ge> t")
    case True
    with Cons.prems d show ?thesis by auto
  next
    case False
    with Cons.prems(1) d obtain ds' where ds': "processVideos t (acc + d) vs = Inr ds'" "ds = d # ds'"
      by (auto split: sum.splits)
    from Cons.prems(2) have "(acc + d) + sum_list ds' < t" unfolding ds' by (simp add: add.assoc)
    from Cons.IH[OF ds'(1) this] d show ?thesis unfolding ds' by simp
  qed
qed

lemma processVideos_butlast:
  "processVideos t acc vs = Inr ds \<Longrightarrow> acc < t \<Longrightarrow> acc + sum_list (butlast ds) < t"
proof (induction vs arbitrary: acc ds)
  case Nil
  then show ?case by simp
next
  case (Cons v vs)
  from Cons.prems obtain d where d: "v_duration v = Some d"
    by (auto split: option.splits)
  show ?case
  proof (cases "acc + d \<ge> t")
    case True
    with Cons.prems d show ?thesis by auto
  next
    case False
    with Cons.prems(1) d obtain ds' where ds': "processVideos t (acc + d) vs = Inr ds'" "ds = d # ds'"
      by (auto split: sum.splits)
    from False have lt: "acc + d < t" by simp
    from Cons.IH[OF ds'(1) lt] lt Cons.prems(2) show ?thesis unfolding ds' by (simp add: add.assoc)
  qed
qed

lemma list_update_last: "ds \<noteq> [] \<Longrightarrow> ds[length ds - Suc 0 := x] = butlast ds @ [x]"
  by (cases ds rule: rev_cases) simp_all

lemma sum_list_butlast_last: "ds \<noteq> [] \<Longrightarrow> sum_list ds = sum_list (butlast ds) + (last ds :: real)"
  by (cases ds rule: rev_cases) simp_all

lemma trimLastAppend_eq:
  assumes "sum_list (butlast ds) < rem"
  shows "trimLastAppend rem ds =
     (if ds \<noteq> [] \<and> sum_list ds > rem then butlast ds @ [rem - sum_list (butlast ds)] else ds)"
proof (cases "ds \<noteq> [] \<and> sum_list ds > rem")
  case True
  then have ne: "ds \<noteq> []" and gt: "sum_list ds > rem" by simp_all
  have t: "last ds - (sum_list ds - rem) = rem - sum_list (butlast ds)"
    using sum_list_butlast_last[OF ne] by simp
  have pos: "0 < last ds - (sum_list ds - rem)" unfolding t using assms by simp
  have "trimLastAppend rem ds = ds[length ds - Suc 0 := last ds - (sum_list ds - rem)]"
    using True pos by (simp add: trimLastAppend_def Let_def)
  then show ?thesis using True unfolding list_update_last[OF ne] t by simp
next
  case False
  then show ?thesis by (auto simp: trimLastAppend_def Let_def)
qed

lemma trimLastAppend_sum:
  assumes "sum_list (butlast ds) < rem"
  shows "sum_list (trimLastAppend rem ds) = min (sum_list ds) rem"
  using assms unfolding trimLastAppend_eq[OF assms]
  by (cases ds rule: rev_cases) (auto simp: min_def)

lemma trimLastAppend_length:
  assumes "sum_list (butlast ds) < rem"
  shows "length (trimLastAppend rem ds) = length ds"
  unfolding trimLastAppend_eq[OF assms] by auto


lemma downloadVideos_Inr: "downloadVideos vs = Inr dl \<Longrightarrow> dl = vs \<and> filter v_download vs = vs"
  by (induction vs arbitrary: dl) (auto split: if_splits sum.splits)

lemma map_filter_Some: "map f xs = map Some ds \<Longrightarrow> List.map_filter f xs = ds"
  by (induction xs arbitrary: ds) (auto simp: List.map_filter_simps)

lemma step1_cases:
  assumes "step1 t vs = Inr f1" and "0 < t"
  shows "(f1 = [ClipsVideo t] \<and> vs \<noteq> [])
       \<or> (f1 = [ClipsVideo (sum_list (videoCandidates vs))] \<and> sum_list (videoCandidates vs) < t
            \<and> videoCandidates vs \<noteq> [])
       \<or> (f1 = [] \<and> vs = [])"
proof (cases "vs = []")
  case True
  with assms show ?thesis by (simp add: step1_def)
next
  case False
  with assms(1) obtain dl ds where dl: "downloadVideos vs = Inr dl"
    and ds: "processVideos t 0 dl = Inr ds"
    by (auto simp: step1_def split: sum.splits)
  from downloadVideos_Inr[OF dl] have dl': "dl = vs" and all: "filter v_download vs = vs" by simp_all
  from processVideos_nonempty[OF ds] False have ne: "ds \<noteq> []" unfolding dl' by simp
  from assms(1) dl ds ne False
  have f1: "f1 = [ClipsVideo (if sum_list ds > t then t else sum_list ds)]"
    by (auto simp: step1_def Let_def split: if_splits)
  show ?thesis
  proof (cases "sum_list ds \<ge> t")
    case True
    then have "f1 = [ClipsVideo t]" unfolding f1 by auto
    with False show ?thesis by simp
  next
    case False
    then have lt: "0 + sum_list ds < t" by simp
    from processVideos_short[OF ds lt] have "map v_duration vs = map Some ds" unfolding dl' .
    then have "videoCandidates vs = ds" unfolding videoCandidates_def all by (rule map_filter_Some)
    with False ne f1 show ?thesis by auto
  qed
qed

lemma step2_sum:
  assumes "f1 = [] \<or> (\<exists>d. f1 = [ClipsVideo d])"
  shows "sum_list (map fileDuration (step2 t im f1)) \<ge> t
       \<or> sum_list (map fileDuration (step2 t im f1))
            = sum_list (map fileDuration f1)
              + sum_list (map candidateDuration (validImages (downloadImages im)))"
proof -
  have cur: "(if length f1 > 0 then fileDuration (hd f1) else 0) = sum_list (map fileDuration f1)"
    using assms by auto
  show ?thesis
  proof (cases "t - sum_list (map fileDuration f1) > 0 \<and> length im > 0")
    case True
    then have s: "step2 t im f1 = f1 @ imageLoop (t - sum_list (map fileDuration f1)) 0
        (validImages (downloadImages im))"
      unfolding step2_def Let_def cur by simp
    from imageLoop_total[of "t - sum_list (map fileDuration f1)" 0 "validImages (downloadImages im)"]
    show ?thesis unfolding s by auto
  next
    case False
    then have s: "step2 t im f1 = f1" unfolding step2_def Let_def cur by auto
    show ?thesis
    proof (cases "t - sum_list (map fileDuration f1) > 0")
      case True
      with False have "im = []" by simp
      then show ?thesis unfolding s
        by (simp add: downloadImages_def validImages_def List.map_filter_simps)
    next
      case False
      then show ?thesis unfolding s by simp
    qed
  qed
qed

lemma step3_sum:
  assumes "step3 t av f2 = Inr files"
  shows "sum_list (map fileDuration files) \<ge> t
       \<or> sum_list (map fileDuration files)
            = sum_list (map fileDuration f2) + sum_list (videoCandidates av)"
proof (cases "t - sum_list (map fileDuration f2) > 0 \<and> length av > 0")
  case True
  define rem where "rem = t - sum_list (map fileDuration f2)"
  have rem: "0 < rem" using True by (simp add: rem_def)
  from assms True obtain ds where ds: "processAppendVideos rem 0 (downloadAppendVideos av) = Inr ds"
    and files: "files = f2 @ map AppendVideo (trimLastAppend rem ds)"
    unfolding step3_def Let_def rem_def by (auto split: sum.splits)
  note ds' = ds[unfolded processAppendVideos_eq]
  from processVideos_butlast[OF ds' rem] have b: "sum_list (butlast ds) < rem" by simp
  have fd: "map (fileDuration \<circ> AppendVideo) xs = xs" for xs by (induction xs) auto
  have sum: "sum_list (map fileDuration files) = sum_list (map fileDuration f2) + min (sum_list ds) rem"
    unfolding files by (simp add: fd trimLastAppend_sum[OF b])
  show ?thesis
  proof (cases "sum_list ds \<ge> rem")
    case True
    then show ?thesis unfolding sum by (simp add: rem_def min_def)
  next
    case False
    then have "0 + sum_list ds < rem" by simp
    from processVideos_short[OF ds' this]
    have "videoCandidates av = ds"
      unfolding videoCandidates_def downloadAppendVideos_def by (rule map_filter_Some)
    with False show ?thesis unfolding sum by (simp add: min_def)
  qed
next
  case False
  with assms have s: "files = f2" unfolding step3_def Let_def by auto
  show ?thesis
  proof (cases "t - sum_list (map fileDuration f2) > 0")
    case True
    with False have "av = []" by simp
    then show ?thesis unfolding s by (simp add: videoCandidates_def List.map_filter_simps)
  next
    case False
    then show ?thesis unfolding s by simp
  qed
qed

lemma candidates_reach_target_exact:
  assumes "generate baseUrl req = Inr r"
    and "candidateTotal baseUrl req \<ge> targetDuration req"
  shows "actualDuration r = targetDuration req \<and> res_duration r = toFixed2 (targetDuration req)"
proof -
  define t where "t = targetDuration req"
  define vs where "vs = normalizeVideos baseUrl (videoUrls req)"
  define im where "im = normalizeImages baseUrl (imageUrls req)"
  define av where "av = normalizeVideos baseUrl (appendVideoUrls req)"
  from assms(1) obtain files f1 where t: "0 < t"
    and f1: "step1 t vs = Inr f1"
    and files: "step3 t av (step2 t im f1) = Inr files"
    and actual: "actualDuration r = min (sum_list (map fileDuration files)) t"
    and rounded: "res_duration r = toFixed2 (actualDuration r)"
    unfolding t_def vs_def im_def av_def by (rule generate_Inr) auto
  define Si where "Si = sum_list (map candidateDuration (validImages (downloadImages im)))"
  have Si: "0 \<le> Si" unfolding Si_def
    by (rule sum_list_nonneg) (use candidateDuration_ge3 in \<open>auto intro: order_trans[of 0 3]\<close>)
  have total: "sum_list (videoCandidates vs) + Si + sum_list (videoCandidates av) \<ge> t"
    using assms(2) unfolding candidateTotal_def t_def vs_def im_def av_def Si_def .
  from step1_cases[OF f1 t]
  have shape: "f1 = [] \<or> (\<exists>d. f1 = [ClipsVideo d])" by auto
  from step1_cases[OF f1 t]
  have s1: "sum_list (map fileDuration f1) = t \<or> sum_list (map fileDuration f1) = sum_list (videoCandidates vs)"
    by (auto simp: videoCandidates_def List.map_filter_simps)
  from step2_sum[OF shape, of t im]
  have s2: "sum_list (map fileDuration (step2 t im f1)) \<ge> t
     \<or> sum_list (map fileDuration (step2 t im f1)) = sum_list (map fileDuration f1) + Si"
    unfolding Si_def .
  note s3 = step3_sum[OF files]
  have "sum_list (map fileDuration files) \<ge> t"
  proof (cases "sum_list (map fileDuration (step2 t im f1)) \<ge> t")
    case True
    with files have "files = step2 t im f1" unfolding step3_def Let_def by auto
    with True show ?thesis by simp
  next
    case False
    with s2 have e2: "sum_list (map fileDuration (step2 t im f1)) = sum_list (map fileDuration f1) + Si"
      by simp
    with False Si s1 have e1: "sum_list (map fileDuration f1) = sum_list (videoCandidates vs)"
      by auto
    from s3 total show ?thesis unfolding e2 e1 by auto
  qed
  then have "actualDuration r = t" unfolding actual by simp
  then show ?thesis using rounded unfolding t_def by simp
qed

lemma fl_0 [simp]: "fl 0 = 0"
  by (simp add: fl_def)

lemma step4D_Inr:
  assumes "step4D env t files = Inr r"
  shows "res_files r = files \<and> files \<noteq> []
    \<and> actualDuration r = min t (dsum (map fileDuration files))
    \<and> res_duration r = fl (toFixed2 (actualDuration r))
    \<and> res_targetDuration r = t"
proof -
  from assms have ne: "files \<noteq> []" by (auto simp: step4D_def split: if_splits)
  from assms ne have r: "r = \<lparr>res_files = files,
      actualDuration = (if dsum (map fileDuration files) > t then t
                        else dsum (map fileDuration files)),
      res_duration = fl (toFixed2 (if dsum (map fileDuration files) > t then t
                        else dsum (map fileDuration files))),
      res_targetDuration = t\<rparr>"
    by (auto simp: step4D_def attempt_def Let_def split: if_splits)
  show ?thesis using ne by (subst (1 2 3 4 5) r) (simp add: min_def)
qed

lemma generateVideoD_Inr:
  assumes "generateVideoD env t im vs av = Inr r"
  obtains f1 f2 files where "env MakeDirectories"
    and "step1D env t vs = Inr f1"
    and "step2D env t im f1 = Inr f2"
    and "step3D env t av f2 = Inr files"
    and "step4D env t files = Inr r"
  using assms unfolding generateVideoD_def attempt_def
  by (auto split: if_splits sum.splits)

lemma generateD_Inr:
  assumes "generateD env baseUrl req = Inr r"
  shows "0 < targetDuration req
    \<and> \<not> (imageUrls req = [] \<and> videoUrls req = [] \<and> appendVideoUrls req = [])
    \<and> generateVideoD env (targetDuration req) (normalizeImages baseUrl (imageUrls req))
         (normalizeVideos baseUrl (videoUrls req)) (normalizeVideos baseUrl (appendVideoUrls req))
       = Inr r"
  using assms unfolding generateD_def by (auto split: if_splits)

lemma generateD_actualDuration:
  assumes "generateD env baseUrl req = Inr r"
  shows "actualDuration r = min (targetDuration req) (dsum (map fileDuration (res_files r)))
    \<and> res_duration r = fl (toFixed2 (actualDuration r))
    \<and> res_targetDuration r = targetDuration req \<and> res_files r \<noteq> []"
proof -
  from generateD_Inr[OF assms]
  have "generateVideoD env (targetDuration req) (normalizeImages baseUrl (imageUrls req))
         (normalizeVideos baseUrl (videoUrls req)) (normalizeVideos baseUrl (appendVideoUrls req))
       = Inr r" by simp
  then obtain files where "step4D env (targetDuration req) files = Inr r"
    by (rule generateVideoD_Inr)
  from step4D_Inr[OF this] show ?thesis by simp
qed

text \<open>The definitions a concrete request is evaluated with in the rounded embedding.\<close>

lemmas evalD_defs =
  generateD_def generateVideoD_def normalizeImages_def normalizeVideos_def normalizeUrl_def
  step1D_def step2D_def step3D_def step4D_def attempt_def allSucceed_def dsum_def
  downloadImages_def downloadAppendVideos_def validImages_def trimLastAppendD_def
  List.map_filter_simps scaledHeight_eval
  videoCandidates_def candidateDuration_def candidateTotal_def hasUsableSource_def
  hardFailure_def Let_def

lemma fl_small_integers:
  "fl 1 = 1" "fl 2 = 2" "fl 3 = 3" "fl 4 = 4" "fl 5 = 5" "fl 6 = 6" "fl 7 = 7" "fl 8 = 8"
  "fl 9 = 9" "fl 10 = 10" "fl 11 = 11"
  by code_simp+

lemma toFixed2_10: "toFixed2 10 = 10"
  by (simp add: toFixed2_def)

lemma fl_short_by_rounding:
  "fl (fl (47/50)) = fl (47/50)"
  "\<not> fl (789/100) \<le> fl (47/50)"
  "\<not> fl (789/100) < fl (47/50)"
  "0 < fl (fl (789/100) - fl (47/50))"
  "fl (fl (789/100) - fl (47/50)) \<le> 10"
  "fl (fl (789/100) - fl (47/50)) < 10"
  "0 < fl (10 - fl (10 - fl (fl (789/100) - fl (47/50))))"
  "\<not> fl (789/100) < fl (fl (47/50) + fl (10 - fl (10 - fl (fl (789/100) - fl (47/50)))))"
  "0 < fl (789/100)"
  by code_simp+

text \<open>
  C2 (amended). Whenever the handler answers with a video, \<open>actualDuration\<close> is the
  smaller of the target duration and the sum of the durations of the files it concatenates,
  added in order in binary64: it is the target duration exactly when that sum reaches the
  target, and the sum itself otherwise. The \<open>duration\<close> field of the response is that
  value rounded to two decimals. In exact arithmetic (the exact embedding, in which the
  encoder does not fail), whenever the handler answers with a video and the candidate
  durations of all pools (the probed durations of the usable videos and append videos, and
  the durations before clamping of the valid images) sum to at least the target duration,
  \<open>actualDuration\<close> is the target duration exactly.
\<close>

theorem sufficient_candidates_target:
  "(generateD env baseUrl req = Inr r \<longrightarrow>
      actualDuration r = min (targetDuration req) (dsum (map fileDuration (res_files r)))
      \<and> res_duration r = fl (toFixed2 (actualDuration r)))
   \<and> (generate baseUrl req = Inr r' \<and> candidateTotal baseUrl req \<ge> targetDuration req \<longrightarrow>
      actualDuration r' = targetDuration req \<and> res_duration r' = toFixed2 (targetDuration req))"
  using generateD_actualDuration[of env baseUrl req r]
    candidates_reach_target_exact[of baseUrl req r'] by blast

theorem sufficient_candidates_target_witness:
  "generateD allSucceed []
     \<lparr>targetDuration = 10, imageUrls = [],
      videoUrls = [\<lparr>v_url = ''http://cdn/v1.mp4'', v_download = True, v_duration = Some 4\<rparr>,
                   \<lparr>v_url = ''http://cdn/v2.mp4'', v_download = True, v_duration = Some 7\<rparr>],
      appendVideoUrls = []\<rparr>
   = Inr \<lparr>res_files = [ClipsVideo 10], actualDuration = 10, res_duration = 10,
          res_targetDuration = 10\<rparr>
   \<and> actualDuration \<lparr>res_files = [ClipsVideo 10], actualDuration = 10, res_duration = 10,
          res_targetDuration = 10\<rparr> = min 10 (dsum (map fileDuration [ClipsVideo 10]))
   \<and> generate ''http://cdn''
     \<lparr>targetDuration = 10,
      imageUrls = [\<lparr>i_url = ''/a.jpg'', i_download = True, i_dimensions = Some (1000, 1000)\<rparr>],
      videoUrls = [],
      appendVideoUrls = [\<lparr>v_url = ''/v1.mp4'', v_download = True, v_duration = Some 4\<rparr>,
                         \<lparr>v_url = ''/v2.mp4'', v_download = True, v_duration = Some 4\<rparr>]\<rparr>
   = Inr \<lparr>res_files = [StaticVideo 1000 1000 5, AppendVideo 4, AppendVideo 1],
          actualDuration = 10, res_duration = 10, res_targetDuration = 10\<rparr>
   \<and> candidateTotal ''http://cdn''
     \<lparr>targetDuration = 10,
      imageUrls = [\<lparr>i_url = ''/a.jpg'', i_download = True, i_dimensions = Some (1000, 1000)\<rparr>],
      videoUrls = [],
      appendVideoUrls = [\<lparr>v_url = ''/v1.mp4'', v_download = True, v_duration = Some 4\<rparr>,
                         \<lparr>v_url = ''/v2.mp4'', v_download = True, v_duration = Some 4\<rparr>]\<rparr> = 13
   \<and> actualDuration \<lparr>res_files = [StaticVideo 1000 1000 5, AppendVideo 4, AppendVideo 1],
          actualDuration = 10, res_duration = 10, res_targetDuration = 10\<rparr> = (10::real)"
proof -
  let ?reqD = "\<lparr>targetDuration = 10, imageUrls = [],
      videoUrls = [\<lparr>v_url = ''http://cdn/v1.mp4'', v_download = True, v_duration = Some 4\<rparr>,
                   \<lparr>v_url = ''http://cdn/v2.mp4'', v_download = True, v_duration = Some 7\<rparr>],
      appendVideoUrls = []\<rparr>"
  let ?resD = "\<lparr>res_files = [ClipsVideo 10], actualDuration = 10, res_duration = 10,
          res_targetDuration = 10\<rparr>"
  let ?req = "\<lparr>targetDuration = 10,
      imageUrls = [\<lparr>i_url = ''/a.jpg'', i_download = True, i_dimensions = Some (1000, 1000)\<rparr>],
      videoUrls = [],
      appendVideoUrls = [\<lparr>v_url = ''/v1.mp4'', v_download = True, v_duration = Some 4\<rparr>,
                         \<lparr>v_url = ''/v2.mp4'', v_download = True, v_duration = Some 4\<rparr>]\<rparr>"
  let ?res = "\<lparr>res_files = [StaticVideo 1000 1000 5, AppendVideo 4, AppendVideo 1],
          actualDuration = 10, res_duration = 10, res_targetDuration = 10\<rparr>"
  have d: "generateD allSucceed [] ?reqD = Inr ?resD"
    by (simp add: evalD_defs fl_small_integers toFixed2_10)
  have g: "generate ''http://cdn'' ?req = Inr ?res" by (simp add: eval_defs)
  have c: "candidateTotal ''http://cdn'' ?req = 13" by (simp add: eval_defs)
  then have c': "candidateTotal ''http://cdn'' ?req \<ge> targetDuration ?req" by simp
  note t = sufficient_candidates_target [of allSucceed "[]" ?reqD ?resD]
  note u = sufficient_candidates_target [of _ "''http://cdn''" ?req _ ?res]
  from t d have 1: "actualDuration ?resD = min 10 (dsum (map fileDuration [ClipsVideo 10]))"
    by simp
  from u g c' have 2: "actualDuration ?res = (10::real)" by simp
  from d 1 g c 2 show ?thesis by blast
qed

text \<open>
  C2 as stated fails in binary64: with a target of 7.89 seconds, a video of 0.94 seconds and
  an append video of 10 seconds the candidates sum to more than the target, but the append
  video is cut to \<open>10 - (10 - (7.89 - 0.94))\<close>, the files add up to 7.889999999999999
  seconds, no final cut takes place and \<open>actualDuration\<close> is not the target.
\<close>

theorem sufficient_candidates_target_counterexample:
  "generateD allSucceed []
     \<lparr>targetDuration = fl (789/100), imageUrls = [],
      videoUrls = [\<lparr>v_url = ''http://cdn/v.mp4'', v_download = True, v_duration = Some (fl (94/100))\<rparr>],
      appendVideoUrls = [\<lparr>v_url = ''http://cdn/w.mp4'', v_download = True, v_duration = Some 10\<rparr>]\<rparr>
   = Inr \<lparr>res_files = [ClipsVideo (2116691824864133 / 2251799813685248),
                       AppendVideo (1956251088139059 / 281474976710656)],
          actualDuration = 4441675132494151 / 562949953421312,
          res_duration = 8883350264988303 / 1125899906842624,
          res_targetDuration = 8883350264988303 / 1125899906842624\<rparr>
   \<and> fl (789/100) = 8883350264988303 / 1125899906842624
   \<and> fl (789/100) \<le> candidateTotal []
     \<lparr>targetDuration = fl (789/100), imageUrls = [],
      videoUrls = [\<lparr>v_url = ''http://cdn/v.mp4'', v_download = True, v_duration = Some (fl (94/100))\<rparr>],
      appendVideoUrls = [\<lparr>v_url = ''http://cdn/w.mp4'', v_download = True, v_duration = Some 10\<rparr>]\<rparr>
   \<and> (4441675132494151 / 562949953421312 :: real) \<noteq> 8883350264988303 / 1125899906842624"
  apply (simp add: evalD_defs fl_small_integers fl_short_by_rounding)
  apply code_simp
  done















lemma validImages_skip:
  assumes "\<not> i_download bad \<or> i_dimensions bad = None"
  shows "validImages (downloadImages (normalizeImages baseUrl (xs @ bad # ys)))
       = validImages (downloadImages (normalizeImages baseUrl (xs @ ys)))"
  using assms
  by (auto simp: validImages_def downloadImages_def normalizeImages_def List.map_filter_def)

lemma downloadAppendVideos_skip:
  assumes "\<not> v_download bad"
  shows "downloadAppendVideos (normalizeVideos baseUrl (xs @ bad # ys))
       = downloadAppendVideos (normalizeVideos baseUrl (xs @ ys))"
  using assms by (auto simp: downloadAppendVideos_def normalizeVideos_def)

lemma downloadVideos_fail:
  "\<exists>v\<in>set vs. \<not> v_download v \<Longrightarrow> downloadVideos vs = Inl GenerationFailed"
proof (induction vs)
  case Nil
  then show ?case by simp
next
  case (Cons v vs)
  show ?case
  proof (cases "v_download v")
    case True
    with Cons.prems have "\<exists>v\<in>set vs. \<not> v_download v" by auto
    from Cons.IH[OF this] True show ?thesis by simp
  next
    case False
    then show ?thesis by simp
  qed
qed

lemma step2D_eq:
  "step2D env t im f1 =
     (case (if length f1 > 0 then attempt env ProbeFirstFile (Inr (fileDuration (hd f1))) else Inr 0) of
        Inl e \<Rightarrow> Inl e
      | Inr currentDuration \<Rightarrow>
          if fl (t - currentDuration) > 0
          then (case imageLoopD env (fl (t - currentDuration)) 0 0 (validImages (downloadImages im)) of
                  Inl e \<Rightarrow> Inl e
                | Inr imageVideoFiles \<Rightarrow> Inr (f1 @ imageVideoFiles))
          else Inr f1)"
proof (cases "im = []")
  case True
  then show ?thesis
    by (simp add: step2D_def Let_def validImages_def downloadImages_def List.map_filter_simps
          split: sum.splits)
next
  case False
  then show ?thesis by (simp add: step2D_def Let_def cong: sum.case_cong)
qed

lemma trimLastAppendD_Nil [simp]: "trimLastAppendD env rem [] = Inr []"
  by (simp add: trimLastAppendD_def dsum_def)

lemma step3D_eq:
  "step3D env t av files =
     (case probeFiles env 0 0 files of
        Inl e \<Rightarrow> Inl e
      | Inr currentTotalDuration \<Rightarrow>
          if fl (t - currentTotalDuration) > 0
          then (case processAppendVideosD env (fl (t - currentTotalDuration)) 0 0
                       (downloadAppendVideos av) of
                  Inl e \<Rightarrow> Inl e
                | Inr appendProcessedVideos \<Rightarrow>
                    (case trimLastAppendD env (fl (t - currentTotalDuration)) appendProcessedVideos of
                       Inl e \<Rightarrow> Inl e
                     | Inr trimmed \<Rightarrow> Inr (files @ map AppendVideo trimmed)))
          else Inr files)"
proof (cases "av = []")
  case True
  then show ?thesis
    by (simp add: step3D_def Let_def downloadAppendVideos_def split: sum.splits)
next
  case False
  then show ?thesis by (simp add: step3D_def Let_def cong: sum.case_cong)
qed

lemma generateVideoD_images:
  assumes "validImages (downloadImages im) = validImages (downloadImages im')"
  shows "generateVideoD env t im vs av = generateVideoD env t im' vs av"
  unfolding generateVideoD_def step2D_eq assms ..

lemma generateVideoD_appendVideos:
  assumes "downloadAppendVideos av = downloadAppendVideos av'"
  shows "generateVideoD env t im vs av = generateVideoD env t im vs av'"
  unfolding generateVideoD_def step3D_eq assms ..

lemma generateD_download_fail:
  assumes "0 < targetDuration req"
    and "\<exists>v\<in>set (normalizeVideos baseUrl (videoUrls req)). \<not> v_download v"
  shows "generateD env baseUrl req = Inl GenerationFailed"
proof -
  from assms(2) have ne: "normalizeVideos baseUrl (videoUrls req) \<noteq> []" by auto
  then have ne': "videoUrls req \<noteq> []" by (auto simp: normalizeVideos_def)
  have "step1D env (targetDuration req) (normalizeVideos baseUrl (videoUrls req)) = Inl GenerationFailed"
    using ne downloadVideos_fail[OF assms(2)] by (simp add: step1D_def)
  then show ?thesis using assms(1) ne' by (simp add: generateD_def generateVideoD_def attempt_def)
qed

lemma generateVideoD_nothing:
  assumes "validImages (downloadImages im) = []" and "downloadAppendVideos av = []"
  shows "generateVideoD env t im [] av
       = (if env MakeDirectories then Inl NoVideoGenerated else Inl GenerationFailed)"
  by (simp add: generateVideoD_def attempt_def step1D_def step2D_eq step3D_eq step4D_def assms)


lemma toFixed2_small: "toFixed2 9 = 9" "toFixed2 5 = 5" "toFixed2 4 = 4"
  by (simp_all add: toFixed2_def)

text \<open>
  C5 (amended). An image whose download or probe fails, and an append video whose download
  fails, is skipped: provided the request without that source still names some URL, the
  handler answers exactly as if the source had not been supplied. When such an image, or
  such an append video, is the only URL of a request with a positive target, the handler
  answers \<open>no_video_generated\<close> (\<open>generation_failed\<close> when the working directories
  cannot be created), whereas the request without it is refused with \<open>invalid_request\<close>.
  A video of \<open>videoUrls\<close> whose download fails is not skipped: with a positive target
  it aborts the whole run with \<open>generation_failed\<close>.
\<close>

theorem soft_failures_skipped:
  "((\<not> i_download badImage \<or> i_dimensions badImage = None)
      \<and> (xs @ ys \<noteq> [] \<or> videoUrls req \<noteq> [] \<or> appendVideoUrls req \<noteq> [])
     \<longrightarrow> generateD env baseUrl (req\<lparr>imageUrls := xs @ badImage # ys\<rparr>)
          = generateD env baseUrl (req\<lparr>imageUrls := xs @ ys\<rparr>))
   \<and> (\<not> v_download badVideo
      \<and> (vs @ ws \<noteq> [] \<or> videoUrls req \<noteq> [] \<or> imageUrls req \<noteq> [])
     \<longrightarrow> generateD env baseUrl (req\<lparr>appendVideoUrls := vs @ badVideo # ws\<rparr>)
          = generateD env baseUrl (req\<lparr>appendVideoUrls := vs @ ws\<rparr>))
   \<and> ((\<not> i_download badImage \<or> i_dimensions badImage = None)
      \<and> 0 < targetDuration req \<and> videoUrls req = [] \<and> appendVideoUrls req = []
     \<longrightarrow> generateD env baseUrl (req\<lparr>imageUrls := [badImage]\<rparr>)
          = (if env MakeDirectories then Inl NoVideoGenerated else Inl GenerationFailed)
       \<and> generateD env baseUrl (req\<lparr>imageUrls := []\<rparr>) = Inl (InvalidRequest NoUrlsProvided))
   \<and> (\<not> v_download badVideo
      \<and> 0 < targetDuration req \<and> videoUrls req = [] \<and> imageUrls req = []
     \<longrightarrow> generateD env baseUrl (req\<lparr>appendVideoUrls := [badVideo]\<rparr>)
          = (if env MakeDirectories then Inl NoVideoGenerated else Inl GenerationFailed)
       \<and> generateD env baseUrl (req\<lparr>appendVideoUrls := []\<rparr>) = Inl (InvalidRequest NoUrlsProvided))
   \<and> (0 < targetDuration req
      \<and> (\<exists>v\<in>set (normalizeVideos baseUrl (videoUrls req)). \<not> v_download v)
     \<longrightarrow> generateD env baseUrl req = Inl GenerationFailed)"
proof (intro conjI impI)
  assume a: "(\<not> i_download badImage \<or> i_dimensions badImage = None)
      \<and> (xs @ ys \<noteq> [] \<or> videoUrls req \<noteq> [] \<or> appendVideoUrls req \<noteq> [])"
  then have bad: "\<not> i_download badImage \<or> i_dimensions badImage = None" by simp
  note g = generateVideoD_images[OF validImages_skip[OF bad, of baseUrl xs ys]]
  from a show "generateD env baseUrl (req\<lparr>imageUrls := xs @ badImage # ys\<rparr>)
      = generateD env baseUrl (req\<lparr>imageUrls := xs @ ys\<rparr>)"
    by (auto simp: generateD_def g)
next
  assume a: "\<not> v_download badVideo
      \<and> (vs @ ws \<noteq> [] \<or> videoUrls req \<noteq> [] \<or> imageUrls req \<noteq> [])"
  then have bad: "\<not> v_download badVideo" by simp
  note g = generateVideoD_appendVideos[OF downloadAppendVideos_skip[OF bad, of baseUrl vs ws]]
  from a show "generateD env baseUrl (req\<lparr>appendVideoUrls := vs @ badVideo # ws\<rparr>)
      = generateD env baseUrl (req\<lparr>appendVideoUrls := vs @ ws\<rparr>)"
    by (auto simp: generateD_def g)
next
  assume a: "(\<not> i_download badImage \<or> i_dimensions badImage = None)
      \<and> 0 < targetDuration req \<and> videoUrls req = [] \<and> appendVideoUrls req = []"
  then have bad: "\<not> i_download badImage \<or> i_dimensions badImage = None" by simp
  from validImages_skip[OF bad, of baseUrl "[]" "[]"]
  have v: "validImages (downloadImages (normalizeImages baseUrl [badImage])) = []"
    by (simp add: normalizeImages_def downloadImages_def validImages_def List.map_filter_simps)
  have n: "normalizeVideos baseUrl [] = []" "downloadAppendVideos [] = []"
    by (simp_all add: normalizeVideos_def downloadAppendVideos_def)
  from a show "generateD env baseUrl (req\<lparr>imageUrls := [badImage]\<rparr>)
      = (if env MakeDirectories then Inl NoVideoGenerated else Inl GenerationFailed)"
    using generateVideoD_nothing[OF v n(2), of env "targetDuration req"]
    by (simp add: generateD_def n)
next
  assume "(\<not> i_download badImage \<or> i_dimensions badImage = None)
      \<and> 0 < targetDuration req \<and> videoUrls req = [] \<and> appendVideoUrls req = []"
  then show "generateD env baseUrl (req\<lparr>imageUrls := []\<rparr>) = Inl (InvalidRequest NoUrlsProvided)"
    by (simp add: generateD_def)
next
  assume a: "\<not> v_download badVideo
      \<and> 0 < targetDuration req \<and> videoUrls req = [] \<and> imageUrls req = []"
  have d: "downloadAppendVideos (normalizeVideos baseUrl [badVideo]) = []"
    using a by (simp add: normalizeVideos_def downloadAppendVideos_def)
  have n: "normalizeVideos baseUrl [] = []" "normalizeImages baseUrl [] = []"
    "validImages (downloadImages []) = []"
    by (simp_all add: normalizeVideos_def normalizeImages_def validImages_def downloadImages_def
          List.map_filter_simps)
  from a show "generateD env baseUrl (req\<lparr>appendVideoUrls := [badVideo]\<rparr>)
      = (if env MakeDirectories then Inl NoVideoGenerated else Inl GenerationFailed)"
    using generateVideoD_nothing[OF n(3) d, of env "targetDuration req"]
    by (simp add: generateD_def n)
next
  assume "\<not> v_download badVideo
      \<and> 0 < targetDuration req \<and> videoUrls req = [] \<and> imageUrls req = []"
  then show "generateD env baseUrl (req\<lparr>appendVideoUrls := []\<rparr>) = Inl (InvalidRequest NoUrlsProvided)"
    by (simp add: generateD_def)
next
  assume "0 < targetDuration req
      \<and> (\<exists>v\<in>set (normalizeVideos baseUrl (videoUrls req)). \<not> v_download v)"
  then show "generateD env baseUrl req = Inl GenerationFailed"
    using generateD_download_fail by blast
qed

theorem soft_failures_skipped_witness:
  "generateD allSucceed []
     \<lparr>targetDuration = 10,
      imageUrls = [\<lparr>i_url = ''http://cdn/gone.jpg'', i_download = False, i_dimensions = None\<rparr>,
                   \<lparr>i_url = ''http://cdn/a.jpg'', i_download = True, i_dimensions = Some (1000, 1000)\<rparr>],
      videoUrls = [],
      appendVideoUrls = [\<lparr>v_url = ''http://cdn/gone.mp4'', v_download = False, v_duration = None\<rparr>,
                         \<lparr>v_url = ''http://cdn/v.mp4'', v_download = True, v_duration = Some 4\<rparr>]\<rparr>
   = Inr \<lparr>res_files = [StaticVideo 1000 1000 5, AppendVideo 4],
          actualDuration = 9, res_duration = 9, res_targetDuration = 10\<rparr>
   \<and> generateD allSucceed []
     \<lparr>targetDuration = 10,
      imageUrls = [\<lparr>i_url = ''http://cdn/a.jpg'', i_download = True, i_dimensions = Some (1000, 1000)\<rparr>],
      videoUrls = [\<lparr>v_url = ''http://cdn/u.mp4'', v_download = False, v_duration = Some 4\<rparr>],
      appendVideoUrls = [\<lparr>v_url = ''http://cdn/v.mp4'', v_download = True, v_duration = Some 4\<rparr>]\<rparr>
   = Inl GenerationFailed
   \<and> generateD allSucceed []
     \<lparr>targetDuration = 10,
      imageUrls = [\<lparr>i_url = ''http://cdn/gone.jpg'', i_download = False, i_dimensions = None\<rparr>],
      videoUrls = [], appendVideoUrls = []\<rparr>
   = Inl NoVideoGenerated
   \<and> generateD allSucceed []
     \<lparr>targetDuration = 10, imageUrls = [], videoUrls = [],
      appendVideoUrls = [\<lparr>v_url = ''http://cdn/gone.mp4'', v_download = False, v_duration = None\<rparr>]\<rparr>
   = Inl NoVideoGenerated
   \<and> generateD allSucceed []
     \<lparr>targetDuration = 10, imageUrls = [], videoUrls = [], appendVideoUrls = []\<rparr>
   = Inl (InvalidRequest NoUrlsProvided)"
proof -
  let ?bi = "\<lparr>i_url = ''http://cdn/gone.jpg'', i_download = False, i_dimensions = None\<rparr>"
  let ?gi = "\<lparr>i_url = ''http://cdn/a.jpg'', i_download = True, i_dimensions = Some (1000::nat, 1000::nat)\<rparr>"
  let ?bv = "\<lparr>v_url = ''http://cdn/gone.mp4'', v_download = False, v_duration = None\<rparr>"
  let ?gv = "\<lparr>v_url = ''http://cdn/v.mp4'', v_download = True, v_duration = Some (4::real)\<rparr>"
  let ?req = "\<lparr>targetDuration = 10, imageUrls = [?gi], videoUrls = [], appendVideoUrls = [?gv]\<rparr>"
  let ?empty = "\<lparr>targetDuration = 10, imageUrls = [], videoUrls = [], appendVideoUrls = []\<rparr>"
  let ?uv = "\<lparr>v_url = ''http://cdn/u.mp4'', v_download = False, v_duration = Some (4::real)\<rparr>"
  note t = soft_failures_skipped [of ?bi "[]" "[?gi]" _ allSucceed _ ?bv "[]" "[?gv]"]
  from t [of "?req\<lparr>videoUrls := [?uv]\<rparr>" "[]"]
  have 0: "generateD allSucceed [] \<lparr>targetDuration = 10, imageUrls = [?gi], videoUrls = [?uv],
       appendVideoUrls = [?gv]\<rparr> = Inl GenerationFailed"
    by (simp add: normalizeVideos_def normalizeUrl_def)
  from t [of "?req\<lparr>appendVideoUrls := [?bv, ?gv]\<rparr>" "[]"]
  have 1: "generateD allSucceed [] \<lparr>targetDuration = 10, imageUrls = [?bi, ?gi], videoUrls = [],
       appendVideoUrls = [?bv, ?gv]\<rparr>
     = generateD allSucceed [] \<lparr>targetDuration = 10, imageUrls = [?gi], videoUrls = [],
       appendVideoUrls = [?bv, ?gv]\<rparr>" by simp
  from t [of ?req "[]"]
  have 2: "generateD allSucceed [] \<lparr>targetDuration = 10, imageUrls = [?gi], videoUrls = [],
       appendVideoUrls = [?bv, ?gv]\<rparr> = generateD allSucceed [] ?req" by simp
  have 3: "generateD allSucceed [] ?req = Inr \<lparr>res_files = [StaticVideo 1000 1000 5, AppendVideo 4],
          actualDuration = 9, res_duration = 9, res_targetDuration = 10\<rparr>"
    by (simp add: evalD_defs fl_small_integers toFixed2_small)
  from t [of ?empty "[]"]
  have 4: "generateD allSucceed [] \<lparr>targetDuration = 10, imageUrls = [?bi], videoUrls = [],
       appendVideoUrls = []\<rparr> = Inl NoVideoGenerated"
    and 5: "generateD allSucceed [] \<lparr>targetDuration = 10, imageUrls = [], videoUrls = [],
       appendVideoUrls = [?bv]\<rparr> = Inl NoVideoGenerated"
    and 6: "generateD allSucceed [] ?empty = Inl (InvalidRequest NoUrlsProvided)"
    by (simp_all add: allSucceed_def)
  from 0 1 2 3 4 5 6 show ?thesis by simp
qed

text \<open>
  C5 as stated fails for the pool of \<open>videoUrls\<close>: one video whose download fails aborts
  the run, although the request without it yields a video from the image.
\<close>

theorem soft_failures_skipped_counterexample:
  "generateD allSucceed []
     \<lparr>targetDuration = 10,
      imageUrls = [\<lparr>i_url = ''http://cdn/a.jpg'', i_download = True, i_dimensions = Some (1000, 1000)\<rparr>],
      videoUrls = [\<lparr>v_url = ''http://cdn/gone.mp4'', v_download = False, v_duration = None\<rparr>],
      appendVideoUrls = []\<rparr>
   = Inl GenerationFailed
   \<and> generateD allSucceed []
     \<lparr>targetDuration = 10,
      imageUrls = [\<lparr>i_url = ''http://cdn/a.jpg'', i_download = True, i_dimensions = Some (1000, 1000)\<rparr>],
      videoUrls = [],
      appendVideoUrls = []\<rparr>
   = Inr \<lparr>res_files = [StaticVideo 1000 1000 5], actualDuration = 5, res_duration = 5,
          res_targetDuration = 10\<rparr>"
  by (simp add: evalD_defs fl_small_integers toFixed2_small)


lemma processVideos_take:
  "processVideos t acc vs = Inr ds \<Longrightarrow> Suc i < length ds \<Longrightarrow> acc + sum_list (take (Suc i) ds) < t"
proof (induction vs arbitrary: acc ds i)
  case Nil
  then show ?case by simp
next
  case (Cons v vs)
  from Cons.prems obtain d where d: "v_duration v = Some d"
    by (auto split: option.splits)
  show ?case
  proof (cases "acc + d \<ge> t")
    case True
    with Cons.prems d show ?thesis by auto
  next
    case False
    with Cons.prems(1) d obtain ds' where ds': "processVideos t (acc + d) vs = Inr ds'" "ds = d # ds'"
      by (auto split: sum.splits)
    show ?thesis
    proof (cases i)
      case 0
      with False show ?thesis unfolding ds' by simp
    next
      case (Suc j)
      with Cons.prems(2) have "Suc j < length ds'" unfolding ds' by simp
      from Cons.IH[OF ds'(1) this] show ?thesis unfolding ds' Suc by (simp add: add.assoc)
    qed
  qed
qed

lemma processVideos_nth:
  assumes "processVideos t acc vs = Inr ds" and "i < length ds"
  shows "v_duration (vs ! i) = Some (ds ! i)"
proof -
  from processVideos_prefix[OF assms(1)]
  have e: "map Some ds = take (length ds) (map v_duration vs)" .
  then have "length ds = length (take (length ds) (map v_duration vs))" by (metis length_map)
  then have l: "length ds \<le> length vs" by simp
  have "map Some ds ! i = Some (ds ! i)" using assms(2) by simp
  moreover have "take (length ds) (map v_duration vs) ! i = v_duration (vs ! i)"
    using assms(2) l by simp
  ultimately show ?thesis using e by simp
qed

lemma trimLastAppend_nth:
  assumes ds: "processVideos rem 0 vs = Inr ds" and rem: "0 < rem" and i: "i < length ds"
  shows "take i (trimLastAppend rem ds) = take i ds"
    and "trimLastAppend rem ds ! i = min (ds ! i) (rem - sum_list (take i ds))"
    and "trimLastAppend rem ds ! i \<noteq> ds ! i \<Longrightarrow> 0 < trimLastAppend rem ds ! i"
proof -
  from processVideos_butlast[OF ds rem] have b: "sum_list (butlast ds) < rem" by simp
  note eq = trimLastAppend_eq[OF b]
  have ne: "ds \<noteq> []" using i by auto
  have bl: "butlast ds = take (length ds - 1) ds" by (rule butlast_conv_take)
  have i': "i \<le> length ds - 1" using i by simp
  show "take i (trimLastAppend rem ds) = take i ds"
    unfolding eq using i' i by (auto simp add: bl min_def)
  have split: "sum_list (take (Suc i) ds) = sum_list (take i ds) + ds ! i"
    using i by (simp add: take_Suc_conv_app_nth)
  show m: "trimLastAppend rem ds ! i = min (ds ! i) (rem - sum_list (take i ds))"
  proof (cases "Suc i < length ds")
    case True
    from processVideos_take[OF ds True] have "ds ! i < rem - sum_list (take i ds)"
      unfolding split by simp
    moreover have "trimLastAppend rem ds ! i = ds ! i"
      unfolding eq using True by (auto simp add: nth_append nth_butlast)
    ultimately show ?thesis by simp
  next
    case False
    with i have il: "i = length ds - 1" by simp
    have tk: "take i ds = butlast ds" unfolding il bl ..
    have la: "ds ! i = last ds" unfolding il using ne by (simp add: last_conv_nth)
    have s: "sum_list ds = sum_list (butlast ds) + last ds" by (rule sum_list_butlast_last[OF ne])
    have "trimLastAppend rem ds ! i
        = (if sum_list ds > rem then rem - sum_list (butlast ds) else last ds)"
      unfolding eq using ne il la by (simp add: nth_append)
    then show ?thesis unfolding tk la using s by (simp add: min_def)
  qed
  show "0 < trimLastAppend rem ds ! i" if "trimLastAppend rem ds ! i \<noteq> ds ! i"
  proof -
    from that m have "trimLastAppend rem ds ! i = rem - sum_list (take i ds)"
      by (simp add: min_def split: if_splits)
    moreover have "sum_list (take i ds) < rem"
    proof (cases i)
      case 0
      with rem show ?thesis by simp
    next
      case (Suc j)
      with i have "Suc j < length ds" by simp
      from processVideos_take[OF ds this] show ?thesis unfolding Suc by simp
    qed
    ultimately show ?thesis by simp
  qed
qed

text \<open>
  C6 (amended). In the image loop every emitted file lasts
  \<open>min(candidateDuration, max(1, remaining))\<close>, where \<open>remaining\<close> is the budget left
  before the file: at least one second, never more than the candidate duration. In the
  append pool every emitted file lasts \<open>min(probed duration, remaining)\<close>, never more than
  its probed duration, and a file that was cut has a positive duration.
\<close>

theorem clamp_only_truncates:
  "(i < length (imageLoop rem acc images) \<longrightarrow>
      fileDuration (imageLoop rem acc images ! i)
        = min (candidateDuration (images ! i))
            (max 1 (rem - (acc + sum_list (map fileDuration (take i (imageLoop rem acc images))))))
      \<and> 1 \<le> fileDuration (imageLoop rem acc images ! i)
      \<and> fileDuration (imageLoop rem acc images ! i) \<le> candidateDuration (images ! i))
   \<and> (processAppendVideos rem' 0 vs = Inr ds \<and> 0 < rem' \<and> j < length ds \<longrightarrow>
      v_duration (vs ! j) = Some (ds ! j)
      \<and> length (trimLastAppend rem' ds) = length ds
      \<and> trimLastAppend rem' ds ! j
          = min (ds ! j) (rem' - sum_list (take j (trimLastAppend rem' ds)))
      \<and> trimLastAppend rem' ds ! j \<le> ds ! j
      \<and> (trimLastAppend rem' ds ! j \<noteq> ds ! j \<longrightarrow> 0 < trimLastAppend rem' ds ! j))"
proof (intro conjI impI)
  assume i: "i < length (imageLoop rem acc images)"
  note n = imageLoop_nth[OF i]
  show "fileDuration (imageLoop rem acc images ! i)
        = min (candidateDuration (images ! i))
            (max 1 (rem - (acc + sum_list (map fileDuration (take i (imageLoop rem acc images))))))"
    by (subst n) (simp add: clampImage_min)
  show "1 \<le> fileDuration (imageLoop rem acc images ! i)"
    by (subst n) (simp add: clampImage_bounds)
  show "fileDuration (imageLoop rem acc images ! i) \<le> candidateDuration (images ! i)"
    by (subst n) (simp add: clampImage_bounds)
next
  assume a: "processAppendVideos rem' 0 vs = Inr ds \<and> 0 < rem' \<and> j < length ds"
  then have ds: "processVideos rem' 0 vs = Inr ds" and rem: "0 < rem'" and j: "j < length ds"
    by (simp_all add: processAppendVideos_eq)
  note t = trimLastAppend_nth[OF ds rem j]
  from processVideos_butlast[OF ds rem] have b: "sum_list (butlast ds) < rem'" by simp
  show "v_duration (vs ! j) = Some (ds ! j)" by (rule processVideos_nth[OF ds j])
  show "length (trimLastAppend rem' ds) = length ds" by (rule trimLastAppend_length[OF b])
  show "trimLastAppend rem' ds ! j = min (ds ! j) (rem' - sum_list (take j (trimLastAppend rem' ds)))"
    unfolding t(1) by (rule t(2))
  show "trimLastAppend rem' ds ! j \<le> ds ! j" unfolding t(2) by simp
  show "0 < trimLastAppend rem' ds ! j" if "trimLastAppend rem' ds ! j \<noteq> ds ! j"
    using that by (rule t(3))
qed


theorem clamp_only_truncates_witness:
  "imageLoop 7 0 [(1000, 1000), (1000, 1000)] = [StaticVideo 1000 1000 5, StaticVideo 1000 1000 2]
   \<and> fileDuration (imageLoop 7 0 [(1000, 1000), (1000, 1000)] ! 1) = min 5 (max 1 (7 - 5))
   \<and> processAppendVideos 6 0
        [\<lparr>v_url = ''http://cdn/v1.mp4'', v_download = True, v_duration = Some 4\<rparr>,
         \<lparr>v_url = ''http://cdn/v2.mp4'', v_download = True, v_duration = Some 4\<rparr>] = Inr [4, 4]
   \<and> trimLastAppend 6 [4, 4] = [4, 2]
   \<and> trimLastAppend 6 [4, 4] ! 1 = min 4 (6 - 4)
   \<and> (0::real) < trimLastAppend 6 [4, 4] ! 1"
proof -
  let ?vs = "[\<lparr>v_url = ''http://cdn/v1.mp4'', v_download = True, v_duration = Some (4::real)\<rparr>,
         \<lparr>v_url = ''http://cdn/v2.mp4'', v_download = True, v_duration = Some 4\<rparr>]"
  have il: "imageLoop 7 0 [(1000, 1000), (1000, 1000)]
      = [StaticVideo 1000 1000 5, StaticVideo 1000 1000 2]"
    by (simp add: eval_defs)
  have pa: "processAppendVideos 6 0 ?vs = Inr [4, 4]" by simp
  have tl: "trimLastAppend 6 [4, 4] = [4, 2]" by (simp add: eval_defs)
  have i: "1 < length (imageLoop 7 0 [(1000, 1000), (1000, 1000)])" unfolding il by simp
  have j: "processAppendVideos 6 0 ?vs = Inr [4, 4] \<and> (0::real) < 6 \<and> 1 < length [4, 4::real]"
    using pa by simp
  note t = clamp_only_truncates [of 1 7 0 "[(1000, 1000), (1000, 1000)]" 6 ?vs "[4, 4]" 1]
  from t i have a: "fileDuration (imageLoop 7 0 [(1000, 1000), (1000, 1000)] ! 1)
      = min (candidateDuration ([(1000, 1000), (1000, 1000)] ! 1))
          (max 1 (7 - (0 + sum_list (map fileDuration
             (take 1 (imageLoop 7 0 [(1000, 1000), (1000, 1000)]))))))"
    by blast
  from t j have b: "trimLastAppend 6 [4, 4] ! 1
      = min ([4, 4] ! 1) (6 - sum_list (take 1 (trimLastAppend 6 [4, 4])))"
    and c: "trimLastAppend 6 [4, 4] ! 1 \<noteq> [4, 4] ! 1 \<longrightarrow> (0::real) < trimLastAppend 6 [4, 4] ! 1"
    by blast+
  have a': "fileDuration (imageLoop 7 0 [(1000, 1000), (1000, 1000)] ! 1) = min 5 (max 1 (7 - 5))"
    using a unfolding il by (simp add: eval_defs)
  have b': "trimLastAppend 6 [4, 4] ! 1 = min 4 (6 - 4)" using b unfolding tl by simp
  have c': "(0::real) < trimLastAppend 6 [4, 4] ! 1" using c unfolding tl by simp
  from il pa tl a' b' c' show ?thesis by blast
qed

text \<open>
  C6 as stated fails in the image loop: with a target of half a second a static image (a
  candidate of 5 seconds) is emitted with 1 second, not with \<open>min(5, 0.5)\<close>.
\<close>

theorem clamp_only_truncates_counterexample:
  "generate []
     \<lparr>targetDuration = 1/2,
      imageUrls = [\<lparr>i_url = ''http://cdn/a.jpg'', i_download = True, i_dimensions = Some (1000, 1000)\<rparr>],
      videoUrls = [], appendVideoUrls = []\<rparr>
   = Inr \<lparr>res_files = [StaticVideo 1000 1000 1], actualDuration = 1/2, res_duration = 1/2,
          res_targetDuration = 1/2\<rparr>
   \<and> candidateDuration (1000, 1000) = 5
   \<and> (1::real) \<noteq> min 5 (1/2)"
  by (simp add: eval_defs)

lemma validImages_set:
  "(w, h) \<in> set (validImages (downloadImages srcs)) \<longleftrightarrow>
     (\<exists>s\<in>set srcs. i_download s \<and> i_dimensions s = Some (w, h)) \<and> 500 \<le> w \<and> 500 \<le> h"
  by (induction srcs)
     (auto simp: validImages_def downloadImages_def List.map_filter_simps split: option.splits)

lemma imageLoopD_Cons:
  "imageLoopD env rem k acc (im # images) =
     (if env (RenderImage k) then
        (if fl (acc + clampImageD rem acc (candidateDurationD im)) \<ge> rem
         then Inr [imageVideo im (clampImageD rem acc (candidateDurationD im))]
         else (case imageLoopD env rem (Suc k)
                      (fl (acc + clampImageD rem acc (candidateDurationD im))) images of
                 Inl e \<Rightarrow> Inl e
               | Inr files \<Rightarrow>
                   Inr (imageVideo im (clampImageD rem acc (candidateDurationD im)) # files)))
      else Inl GenerationFailed)"
proof (cases im)
  case (Pair width height)
  show ?thesis unfolding Pair
    by (cases "scaledHeight width height > 1920")
       (simp_all add: imageVideo_def clampImageD_def candidateDurationD_def Let_def
          cong: sum.case_cong)
qed

lemma imageLoopD_nth:
  "imageLoopD env rem k acc images = Inr files \<Longrightarrow> i < length files \<Longrightarrow>
   i < length images
   \<and> files ! i =
     imageVideo (images ! i)
       (clampImageD rem (accumulate acc (map fileDuration (take i files)))
          (candidateDurationD (images ! i)))"
proof (induction images arbitrary: k acc files i)
  case Nil
  then show ?case by simp
next
  case (Cons im images)
  define d where "d = clampImageD rem acc (candidateDurationD im)"
  note step = imageLoopD_Cons[of env rem k acc im images, folded d_def]
  from Cons.prems(1) have env: "env (RenderImage k)" unfolding step by (auto split: if_splits)
  show ?case
  proof (cases "fl (acc + d) \<ge> rem")
    case True
    with Cons.prems(1) env have "files = [imageVideo im d]" unfolding step by simp
    with Cons.prems(2) show ?thesis by (simp add: d_def accumulate_def)
  next
    case False
    with Cons.prems(1) env obtain rest where
      rest: "imageLoopD env rem (Suc k) (fl (acc + d)) images = Inr rest"
      and files: "files = imageVideo im d # rest"
      unfolding step by (auto split: sum.splits)
    show ?thesis
    proof (cases i)
      case 0
      then show ?thesis using files by (simp add: d_def accumulate_def)
    next
      case (Suc j)
      with Cons.prems(2) files have j: "j < length rest" by simp
      from Cons.IH[OF rest j] show ?thesis unfolding Suc files by (simp add: accumulate_def)
    qed
  qed
qed

lemma imageLoopD_total:
  "(\<forall>op. env op) \<Longrightarrow>
   \<exists>files. imageLoopD env rem k acc images = Inr files
     \<and> (images \<noteq> [] \<longrightarrow> files \<noteq> []) \<and> length files \<le> length images"
proof (induction images arbitrary: k acc)
  case Nil
  then show ?case by simp
next
  case (Cons im images)
  define d where "d = clampImageD rem acc (candidateDurationD im)"
  note step = imageLoopD_Cons[of env rem k acc im images, folded d_def]
  from Cons.IH[OF Cons.prems, of "Suc k" "fl (acc + d)"] obtain rest where
    rest: "imageLoopD env rem (Suc k) (fl (acc + d)) images = Inr rest" "length rest \<le> length images"
    by blast
  show ?case unfolding step using Cons.prems rest by simp
qed

lemma validImages_filter:
  "validImages (downloadImages srcs) =
     map (\<lambda>s. the (i_dimensions s))
       (filter (\<lambda>s. i_download s \<and> (case i_dimensions s of
                                        None \<Rightarrow> False
                                      | Some (w, h) \<Rightarrow> 500 \<le> w \<and> 500 \<le> h)) srcs)"
  by (induction srcs)
     (auto simp: validImages_def downloadImages_def List.map_filter_simps split: option.splits)

lemma step2D_images:
  assumes "processedVideoFiles = [] \<or> env ProbeFirstFile"
    and "0 < fl (target - (if processedVideoFiles = [] then 0 else fileDuration (hd processedVideoFiles)))"
    and "images \<noteq> []"
    and "imageLoopD env
           (fl (target - (if processedVideoFiles = [] then 0 else fileDuration (hd processedVideoFiles))))
           0 0 (validImages (downloadImages images)) = Inr imageVideoFiles"
  shows "step2D env target images processedVideoFiles = Inr (processedVideoFiles @ imageVideoFiles)"
  using assms by (cases "processedVideoFiles = []") (simp_all add: step2D_def attempt_def Let_def)


text \<open>
  C7. The valid images are exactly the downloaded images whose probed width and height are
  both at least 500 pixels, in the order of the request: an image with a side below 500 is
  discarded, every other one is kept. Every file the image loop writes comes from such an
  image; with \<open>sh = Math.round(height * (1080 / width))\<close>, computed in binary64, it is a
  scrolling video whose duration before clamping is \<open>max(3, (sh - 1920) / 100)\<close> when
  \<open>sh > 1920\<close>, and otherwise a static video whose duration before clamping is 5 seconds.
  When the encoder succeeds, the loop writes a file as soon as there is a valid image, and
  step 2 appends the files of the loop to the list of processed files.
\<close>

theorem image_segment_rule:
  "validImages (downloadImages srcs) =
     map (\<lambda>s. the (i_dimensions s))
       (filter (\<lambda>s. i_download s \<and> (case i_dimensions s of
                                        None \<Rightarrow> False
                                      | Some (w, h) \<Rightarrow> 500 \<le> w \<and> 500 \<le> h)) srcs)
   \<and> (imageLoopD env rem k acc (validImages (downloadImages srcs)) = Inr files \<and> i < length files \<longrightarrow>
        (let (w, h) = validImages (downloadImages srcs) ! i;
             sh = round (fl (real h * fl (1080 / real w)));
             spent = accumulate acc (map fileDuration (take i files))
         in 500 \<le> w \<and> 500 \<le> h
            \<and> (\<exists>s\<in>set srcs. i_download s \<and> i_dimensions s = Some (w, h))
            \<and> files ! i =
                (if sh > 1920
                 then ScrollVideo w h
                        (clampImageD rem spent (max 3 (fl (real_of_int (sh - 1920) / 100))))
                 else StaticVideo w h (clampImageD rem spent 5))))
   \<and> ((\<forall>op. env op) \<and> validImages (downloadImages srcs) \<noteq> [] \<longrightarrow>
        (\<exists>files. imageLoopD env rem k acc (validImages (downloadImages srcs)) = Inr files
                 \<and> files \<noteq> []))
   \<and> ((processedVideoFiles = [] \<or> env ProbeFirstFile)
        \<and> 0 < fl (target - (if processedVideoFiles = [] then 0
                              else fileDuration (hd processedVideoFiles)))
        \<and> srcs \<noteq> []
        \<and> imageLoopD env
              (fl (target - (if processedVideoFiles = [] then 0
                             else fileDuration (hd processedVideoFiles))))
              0 0 (validImages (downloadImages srcs)) = Inr imageVideoFiles
       \<longrightarrow> step2D env target srcs processedVideoFiles
             = Inr (processedVideoFiles @ imageVideoFiles))"
proof (intro conjI impI)
  show "validImages (downloadImages srcs) =
     map (\<lambda>s. the (i_dimensions s))
       (filter (\<lambda>s. i_download s \<and> (case i_dimensions s of
                                        None \<Rightarrow> False
                                      | Some (w, h) \<Rightarrow> 500 \<le> w \<and> 500 \<le> h)) srcs)"
    by (rule validImages_filter)
next
  define valid where "valid = validImages (downloadImages srcs)"
  assume "imageLoopD env rem k acc (validImages (downloadImages srcs)) = Inr files \<and> i < length files"
  then have r: "imageLoopD env rem k acc valid = Inr files" and i: "i < length files"
    by (simp_all add: valid_def)
  obtain w h where wh: "valid ! i = (w, h)" by (cases "valid ! i")
  from imageLoopD_nth[OF r i] have iv: "i < length valid"
    and n: "files ! i = imageVideo (w, h)
       (clampImageD rem (accumulate acc (map fileDuration (take i files)))
          (candidateDurationD (w, h)))"
    unfolding wh by simp_all
  from iv have "(w, h) \<in> set valid" using wh by (metis nth_mem)
  then have v: "(\<exists>s\<in>set srcs. i_download s \<and> i_dimensions s = Some (w, h)) \<and> 500 \<le> w \<and> 500 \<le> h"
    unfolding valid_def validImages_set .
  have "files ! i =
      (if round (fl (real h * fl (1080 / real w))) > 1920
       then ScrollVideo w h (clampImageD rem (accumulate acc (map fileDuration (take i files)))
              (max 3 (fl (real_of_int (round (fl (real h * fl (1080 / real w))) - 1920) / 100))))
       else StaticVideo w h (clampImageD rem (accumulate acc (map fileDuration (take i files))) 5))"
    unfolding n by (simp add: imageVideo_def candidateDurationD_def scaledHeight_def)
  with v show "let (w, h) = validImages (downloadImages srcs) ! i;
             sh = round (fl (real h * fl (1080 / real w)));
             spent = accumulate acc (map fileDuration (take i files))
         in 500 \<le> w \<and> 500 \<le> h
            \<and> (\<exists>s\<in>set srcs. i_download s \<and> i_dimensions s = Some (w, h))
            \<and> files ! i =
                (if sh > 1920
                 then ScrollVideo w h
                        (clampImageD rem spent (max 3 (fl (real_of_int (sh - 1920) / 100))))
                 else StaticVideo w h (clampImageD rem spent 5))"
    unfolding valid_def[symmetric] wh Let_def by simp
next
  assume "(\<forall>op. env op) \<and> validImages (downloadImages srcs) \<noteq> []"
  then show "\<exists>files. imageLoopD env rem k acc (validImages (downloadImages srcs)) = Inr files
                 \<and> files \<noteq> []"
    using imageLoopD_total[of env rem k acc "validImages (downloadImages srcs)"] by blast
next
  assume "(processedVideoFiles = [] \<or> env ProbeFirstFile)
        \<and> 0 < fl (target - (if processedVideoFiles = [] then 0
                              else fileDuration (hd processedVideoFiles)))
        \<and> srcs \<noteq> []
        \<and> imageLoopD env
              (fl (target - (if processedVideoFiles = [] then 0
                             else fileDuration (hd processedVideoFiles))))
              0 0 (validImages (downloadImages srcs)) = Inr imageVideoFiles"
  then show "step2D env target srcs processedVideoFiles
             = Inr (processedVideoFiles @ imageVideoFiles)"
    using step2D_images by blast
qed

lemma fl_image_values:
  "fl 5 = 5" "fl 30 = 30" "3 \<le> fl (448/25)" "\<not> 30 \<le> fl (5 + fl (448/25))" "\<not> 30 < fl (5 + fl (448/25))"
  by code_simp+

theorem image_segment_rule_witness:
  "validImages (downloadImages
     [\<lparr>i_url = ''http://cdn/s.jpg'', i_download = True, i_dimensions = Some (499, 2000)\<rparr>,
      \<lparr>i_url = ''http://cdn/a.jpg'', i_download = True, i_dimensions = Some (500, 500)\<rparr>,
      \<lparr>i_url = ''http://cdn/t.jpg'', i_download = True, i_dimensions = Some (688, 2365)\<rparr>])
   = [(500, 500), (688, 2365)]
   \<and> imageLoopD allSucceed 30 0 0 [(500, 500), (688, 2365)]
       = Inr [StaticVideo 500 500 5, ScrollVideo 688 2365 (fl (1792/100))]
   \<and> [StaticVideo 500 500 5, ScrollVideo 688 2365 (fl (1792/100))] ! 0 = StaticVideo 500 500 5
   \<and> [StaticVideo 500 500 5, ScrollVideo 688 2365 (fl (1792/100))] ! 1
       = ScrollVideo 688 2365 (fl (1792/100))
   \<and> step2D allSucceed 30
     [\<lparr>i_url = ''http://cdn/s.jpg'', i_download = True, i_dimensions = Some (499, 2000)\<rparr>,
      \<lparr>i_url = ''http://cdn/a.jpg'', i_download = True, i_dimensions = Some (500, 500)\<rparr>,
      \<lparr>i_url = ''http://cdn/t.jpg'', i_download = True, i_dimensions = Some (688, 2365)\<rparr>] []
       = Inr [StaticVideo 500 500 5, ScrollVideo 688 2365 (fl (1792/100))]"
proof -
  let ?srcs = "[\<lparr>i_url = ''http://cdn/s.jpg'', i_download = True, i_dimensions = Some (499::nat, 2000::nat)\<rparr>,
      \<lparr>i_url = ''http://cdn/a.jpg'', i_download = True, i_dimensions = Some (500, 500)\<rparr>,
      \<lparr>i_url = ''http://cdn/t.jpg'', i_download = True, i_dimensions = Some (688, 2365)\<rparr>]"
  let ?files = "[StaticVideo 500 500 5, ScrollVideo 688 2365 (fl (1792/100))]"
  have v: "validImages (downloadImages ?srcs) = [(500, 500), (688, 2365)]"
    by (simp add: validImages_def downloadImages_def List.map_filter_simps)
  have il: "imageLoopD allSucceed 30 0 0 [(500, 500), (688, 2365)] = Inr ?files"
    by (simp add: scaledHeight_eval allSucceed_def fl_image_values Let_def)
  note t = image_segment_rule [of ?srcs allSucceed 30 0 0 ?files _ "[]" 30 ?files]
  from t [of 0] il have a: "?files ! 0 = StaticVideo 500 500 5"
    unfolding v by (simp add: scaledHeight_eval[unfolded scaledHeight_def] clampImageD_def accumulate_def fl_image_values)
  from t [of 1] il have b: "?files ! 1 = ScrollVideo 688 2365 (fl (1792/100))"
    unfolding v by simp
  from t [of 0] il have c: "step2D allSucceed 30 ?srcs [] = Inr ?files"
    unfolding v by (simp add: fl_image_values)
  from v il a b c show ?thesis by blast
qed

end
